theory Spec2Isabelle
  imports Main
begin

section \<open>Quicklime: a bare bones event dispatcher\<close>

text \<open>
  The development follows \<^verbatim>\<open>src/index.ts\<close>. The class \<^verbatim>\<open>Quicklime\<close> has two fields,
  the set \<^verbatim>\<open>callbacks\<close> and the value \<^verbatim>\<open>last\<close>, and the methods \<^verbatim>\<open>on\<close>,
  \<^verbatim>\<open>once\<close>, \<^verbatim>\<open>off\<close>, \<^verbatim>\<open>clear\<close>, \<^verbatim>\<open>next\<close> and \<^verbatim>\<open>dispatch\<close>. The names are
  those of the source, but for \<^verbatim>\<open>last\<close> (\<open>last_val\<close> in the dispatcher, \<open>last_ev\<close> in
  the event) and \<^verbatim>\<open>next\<close> (\<open>next_event\<close>).
\<close>

subsection \<open>Callback handles\<close>

text \<open>
  A callback is a function object, compared by identity. Three kinds of function objects
  reach the set: functions of the user (\<open>Fn f\<close>, the \<open>f\<close>-th function of the user), the
  closure \<^verbatim>\<open>wrapper\<close> that \<^verbatim>\<open>once\<close> creates (\<open>Wrapper k cb\<close>, the \<open>k\<close>-th closure created,
  with the callback it captured), and the closure \<^verbatim>\<open>(event) => resolve(event)\<close> that
  \<^verbatim>\<open>next\<close> creates (\<open>Resolver p\<close>, with the promise \<open>p\<close> whose \<^verbatim>\<open>resolve\<close> it captured).
\<close>

datatype handle = Fn nat | Wrapper nat handle | Resolver nat

subsection \<open>The JavaScript \<^verbatim>\<open>Set\<close>\<close>

text \<open>
  \<^verbatim>\<open>Set\<close> is modelled as ECMAScript specifies it: a list of entries in insertion order,
  where a deleted entry is replaced by the marker \<^emph>\<open>empty\<close> (here \<open>None\<close>) and
  stays in the list, so that a running iterator, which holds an index into the list,
  sees every later insertion and deletion.
\<close>

type_synonym 'h js_set = "'h option list"

definition set_add :: "'h \<Rightarrow> 'h js_set \<Rightarrow> 'h js_set" where
  "set_add h es = (if Some h \<in> set es then es else es @ [Some h])"

definition set_delete :: "'h \<Rightarrow> 'h js_set \<Rightarrow> 'h js_set" where
  "set_delete h es = map (\<lambda>e. if e = Some h then None else e) es"

definition set_clear :: "'h js_set \<Rightarrow> 'h js_set" where
  "set_clear es = map (\<lambda>e. None) es"

text \<open>The values of the set in iteration order.\<close>

definition members :: "'h js_set \<Rightarrow> 'h list" where
  "members es = List.map_filter id es"

subsection \<open>The event and the dispatcher object\<close>

text \<open>
  \<^verbatim>\<open>QuicklimeEvent\<close>. The field \<^verbatim>\<open>stopPropagation\<close> is a closure over the local variable
  \<^verbatim>\<open>propagationStopped\<close> of one call of \<^verbatim>\<open>dispatch\<close>; it is modelled by the address of
  that variable in the store \<open>flags\<close> below. \<^verbatim>\<open>Type | null\<close> is \<open>'a option\<close>.
\<close>

record 'a event =
  data :: 'a
  last_ev :: "'a option"
  stopPropagation :: nat

record 'a quicklime =
  callbacks :: "handle js_set"
  last_val :: "'a option"

text \<open>\<^verbatim>\<open>constructor(public last: Type | null = null) {}\<close>\<close>

definition constructor :: "'a option \<Rightarrow> 'a quicklime" where
  "constructor l = \<lparr>callbacks = [], last_val = l\<rparr>"

subsection \<open>The callbacks of the user\<close>

text \<open>
  The body of a function of the user is a sequence of commands that ends by returning
  or throwing; \<open>Await p\<close> is a suspension point, after which the rest \<open>p\<close> of the body
  runs as a later task. The commands are the calls a callback can make on its event
  (\<^verbatim>\<open>event.stopPropagation()\<close>) and on the registry of the dispatcher (\<^verbatim>\<open>on\<close>, \<^verbatim>\<open>off\<close>,
  \<^verbatim>\<open>once\<close>, \<^verbatim>\<open>clear\<close>), and printing (\<^verbatim>\<open>console.log\<close>). A callback that calls
  \<^verbatim>\<open>dispatch\<close> itself or assigns the public fields of the dispatcher is outside of
  what is modelled, and so are variables of the user's own. The string of \<open>Throw\<close> and
  \<open>Thrown\<close> stands for the error object that is thrown, its stack trace included.
\<close>

datatype cmd = StopPropagation | On handle | Off handle | Once handle | Clear | Log string

datatype prog = Return | Throw string | Do cmd prog | Await prog

subsection \<open>The rest of the program state\<close>

text \<open>
  Besides the dispatcher object the state holds what the closures and promises of the
  program refer to:
  \<^item> \<open>closures\<close>: the number of \<^verbatim>\<open>wrapper\<close> closures created so far;
  \<^item> \<open>flags\<close>: the variable \<^verbatim>\<open>propagationStopped\<close> of every call of \<^verbatim>\<open>dispatch\<close> so far;
  \<^item> \<open>promises\<close>: the promises created by \<^verbatim>\<open>next\<close>, \<open>None\<close> while pending;
  \<^item> \<open>tasks\<close>: the callbacks that are suspended at an \<^verbatim>\<open>await\<close>, each with its event
    and the rest of its body;
  \<^item> \<open>rejections\<close>: the errors of the promises that were rejected with no handler, in
    the order of the rejections: what the host reports as unhandled rejections;
  \<^item> \<open>console\<close>: what the callbacks have printed;
  \<^item> \<open>invocations\<close>: a history of the calls issued by \<^verbatim>\<open>dispatch\<close>: the position of the
    iterator, the callback, the event passed, and the value of \<^verbatim>\<open>this.last\<close> at the
    moment of the call.
\<close>

record 'a invocation =
  inv_pos :: nat
  inv_handle :: handle
  inv_event :: "'a event"
  inv_last :: "'a option"

record 'a world = "'a quicklime" +
  closures :: nat
  flags :: "bool list"
  promises :: "'a event option list"
  tasks :: "('a event \<times> prog) list"
  rejections :: "string list"
  console :: "string list"
  invocations :: "'a invocation list"

text \<open>A program starts with a new dispatcher and nothing else.\<close>

definition start :: "'a option \<Rightarrow> 'a world" where
  "start l = \<lparr>callbacks = callbacks (constructor l), last_val = last_val (constructor l),
     closures = 0, flags = [], promises = [], tasks = [], rejections = [], console = [],
     invocations = []\<rparr>"

subsection \<open>The methods of the registry\<close>

text \<open>
  \<^verbatim>\<open>on\<close>, \<^verbatim>\<open>off\<close> and \<^verbatim>\<open>clear\<close> touch the field \<^verbatim>\<open>callbacks\<close> only. \<^verbatim>\<open>once\<close> creates
  the closure \<^verbatim>\<open>wrapper\<close> and registers it by \<^verbatim>\<open>on\<close>; \<^verbatim>\<open>next\<close> (here \<open>next_event\<close>)
  creates a promise and registers, by \<^verbatim>\<open>on\<close>, a closure that resolves it. All of them
  return \<^verbatim>\<open>this\<close>, which the model leaves out.
\<close>

definition on :: "handle \<Rightarrow> ('a, 'z) quicklime_scheme \<Rightarrow> ('a, 'z) quicklime_scheme" where
  "on callback q = q\<lparr>callbacks := set_add callback (callbacks q)\<rparr>"

definition off :: "handle \<Rightarrow> ('a, 'z) quicklime_scheme \<Rightarrow> ('a, 'z) quicklime_scheme" where
  "off callback q = q\<lparr>callbacks := set_delete callback (callbacks q)\<rparr>"

definition clear :: "('a, 'z) quicklime_scheme \<Rightarrow> ('a, 'z) quicklime_scheme" where
  "clear q = q\<lparr>callbacks := set_clear (callbacks q)\<rparr>"

definition once :: "handle \<Rightarrow> 'a world \<Rightarrow> 'a world" where
  "once callback w =
     (let wrapper = Wrapper (closures w) callback
      in on wrapper (w\<lparr>closures := Suc (closures w)\<rparr>))"

definition next_event :: "'a world \<Rightarrow> nat \<times> 'a world" where
  "next_event w =
     (let p = length (promises w)
      in (p, on (Resolver p) (w\<lparr>promises := promises w @ [None]\<rparr>)))"

subsection \<open>Calling a callback\<close>

text \<open>
  A call runs the body up to its end or its first suspension point. A function that
  suspends returns a pending promise to its caller at that point, which is a normal
  return. (An \<^verbatim>\<open>async\<close> function that throws before its first \<^verbatim>\<open>await\<close> returns a
  rejected promise: that is \<open>Await (Throw e)\<close>.) The environment \<open>env\<close> gives the body
  that each function of the user runs on a given event, so that a callback can do one
  thing or another according to the data of its event.
\<close>

datatype outcome = Returned | Thrown string

fun run_cmd :: "'a event \<Rightarrow> cmd \<Rightarrow> 'a world \<Rightarrow> 'a world" where
  "run_cmd ev StopPropagation w = w\<lparr>flags := (flags w)[stopPropagation ev := True]\<rparr>"
| "run_cmd ev (On h) w = on h w"
| "run_cmd ev (Off h) w = off h w"
| "run_cmd ev (Once h) w = once h w"
| "run_cmd ev Clear w = clear w"
| "run_cmd ev (Log s) w = w\<lparr>console := console w @ [s]\<rparr>"

fun exec :: "'a event \<Rightarrow> prog \<Rightarrow> 'a world \<Rightarrow> outcome \<times> 'a world" where
  "exec ev Return w = (Returned, w)"
| "exec ev (Throw e) w = (Thrown e, w)"
| "exec ev (Do c p) w = exec ev p (run_cmd ev c w)"
| "exec ev (Await p) w = (Returned, w\<lparr>tasks := tasks w @ [(ev, p)]\<rparr>)"

text \<open>\<^verbatim>\<open>resolve(event)\<close>: settles the promise unless it is settled already.\<close>

definition resolve :: "nat \<Rightarrow> 'a event \<Rightarrow> 'a world \<Rightarrow> 'a world" where
  "resolve p ev w =
     (if p < length (promises w) \<and> promises w ! p = None
      then w\<lparr>promises := (promises w)[p := Some ev]\<rparr> else w)"

text \<open>
  The call \<^verbatim>\<open>callback(event)\<close>. The closure of \<^verbatim>\<open>once\<close> is
  \<^verbatim>\<open>(event) => { callback(event); this.off(wrapper); }\<close>: when the inner call throws,
  the statement after it is not reached.
\<close>

fun call :: "(nat \<Rightarrow> 'a event \<Rightarrow> prog) \<Rightarrow> handle \<Rightarrow> 'a event \<Rightarrow> 'a world \<Rightarrow> outcome \<times> 'a world" where
  "call env (Fn f) ev w = exec ev (env f ev) w"
| "call env (Wrapper k callback) ev w =
     (case call env callback ev w of
        (Thrown e, w') \<Rightarrow> (Thrown e, w')
      | (Returned, w') \<Rightarrow> (Returned, off (Wrapper k callback) w'))"
| "call env (Resolver p) ev w = (Returned, resolve p ev w)"

subsection \<open>\<^verbatim>\<open>dispatch\<close>\<close>

text \<open>
  \<^verbatim>\<open>(async () => callback({ data, last, stopPropagation }))()\<close>: the callback is called at
  once, inside an \<^verbatim>\<open>async\<close> function whose promise is dropped. A throw of the callback
  rejects that promise; nothing handles the rejection.
\<close>

definition async_call :: "(nat \<Rightarrow> 'a event \<Rightarrow> prog) \<Rightarrow> handle \<Rightarrow> 'a event \<Rightarrow> 'a world \<Rightarrow> 'a world" where
  "async_call env callback ev w =
     (case call env callback ev w of
        (Returned, w') \<Rightarrow> w'
      | (Thrown e, w') \<Rightarrow> w'\<lparr>rejections := rejections w' @ [e]\<rparr>)"

text \<open>
  The loop \<^verbatim>\<open>for (const callback of this.callbacks)\<close>. The iterator of a \<^verbatim>\<open>Set\<close> holds an
  index \<open>i\<close> into the entries of the set as they are now; it skips the empty entries
  and is done when the index reaches the end. A callback can delete itself and add
  itself again, and then the loop does not end: the first argument bounds the number
  of steps of the iterator, and \<open>None\<close> says that the bound was reached.
  \<open>note_call\<close> writes the call into the history; it changes nothing else.
\<close>

definition note_call :: "nat \<Rightarrow> handle \<Rightarrow> 'a event \<Rightarrow> 'a world \<Rightarrow> 'a world" where
  "note_call i callback ev w =
     w\<lparr>invocations := invocations w @
        [\<lparr>inv_pos = i, inv_handle = callback, inv_event = ev, inv_last = last_val w\<rparr>]\<rparr>"

fun dispatch_loop ::
  "nat \<Rightarrow> (nat \<Rightarrow> 'a event \<Rightarrow> prog) \<Rightarrow> 'a event \<Rightarrow> nat \<Rightarrow> 'a world \<Rightarrow> 'a world option" where
  "dispatch_loop 0 env ev i w = None"
| "dispatch_loop (Suc n) env ev i w =
     (if length (callbacks w) \<le> i then Some w
      else case callbacks w ! i of
        None \<Rightarrow> dispatch_loop n env ev (Suc i) w
      | Some callback \<Rightarrow>
          (let w' = async_call env callback ev (note_call i callback ev w)
           in if flags w' ! stopPropagation ev then Some w'
              else dispatch_loop n env ev (Suc i) w'))"

definition dispatch :: "nat \<Rightarrow> (nat \<Rightarrow> 'a event \<Rightarrow> prog) \<Rightarrow> 'a \<Rightarrow> 'a world \<Rightarrow> 'a world option" where
  "dispatch n env d w =
     (let l = last_val w;
          w0 = w\<lparr>last_val := Some d, flags := flags w @ [False]\<rparr>
      in dispatch_loop n env \<lparr>data = d, last_ev = l, stopPropagation = length (flags w)\<rparr> 0 w0)"

subsection \<open>Resuming a suspended callback\<close>

text \<open>
  After the running code has returned, one of the suspended callbacks resumes and runs
  up to its next suspension point or its end. Which one resumes depends on what each
  of them awaits: \<open>run_task k\<close> resumes the \<open>k\<close>-th of them, and does nothing when there
  is none. Its promise has no handler, so a throw is one more unhandled rejection.
\<close>

definition run_task :: "nat \<Rightarrow> 'a world \<Rightarrow> 'a world" where
  "run_task k w =
     (if length (tasks w) \<le> k then w
      else case tasks w ! k of
        (ev, p) \<Rightarrow>
          (case exec ev p (w\<lparr>tasks := take k (tasks w) @ drop (Suc k) (tasks w)\<rparr>) of
             (Returned, w') \<Rightarrow> w'
           | (Thrown e, w') \<Rightarrow> w'\<lparr>rejections := rejections w' @ [e]\<rparr>))"

subsection \<open>Notions for the properties\<close>

text \<open>The event that \<^verbatim>\<open>dispatch(d)\<close> passes to the callbacks when it is called in the state \<open>w\<close>.\<close>

definition event_of :: "'a \<Rightarrow> 'a world \<Rightarrow> 'a event" where
  "event_of d w = \<lparr>data = d, last_ev = last_val w, stopPropagation = length (flags w)\<rparr>"

text \<open>The calls that were issued on the way from the state \<open>w\<close> to the state \<open>w'\<close>.\<close>

definition scheduled :: "'a world \<Rightarrow> 'a world \<Rightarrow> 'a invocation list" where
  "scheduled w w' = drop (length (invocations w)) (invocations w')"

text \<open>
  A body calls \<^verbatim>\<open>event.stopPropagation()\<close> before it returns, throws or suspends; a
  callback does so, on a given event, when the body it runs does.
\<close>

fun stops :: "prog \<Rightarrow> bool" where
  "stops Return = False"
| "stops (Throw e) = False"
| "stops (Do c p) = (c = StopPropagation \<or> stops p)"
| "stops (Await p) = False"

fun stops_handle :: "(nat \<Rightarrow> 'a event \<Rightarrow> prog) \<Rightarrow> 'a event \<Rightarrow> handle \<Rightarrow> bool" where
  "stops_handle env ev (Fn f) = stops (env f ev)"
| "stops_handle env ev (Wrapper k callback) = stops_handle env ev callback"
| "stops_handle env ev (Resolver p) = False"

text \<open>
  How the entries of a \<^verbatim>\<open>Set\<close> change in time: the list grows at the end, and an entry
  keeps its value or becomes empty. An empty entry is never filled again.
\<close>

definition later :: "'h js_set \<Rightarrow> 'h js_set \<Rightarrow> bool" where
  "later es es' \<longleftrightarrow>
     length es \<le> length es' \<and> (\<forall>j < length es. es' ! j = es ! j \<or> es' ! j = None)"

text \<open>
  A body that registers a callback, by \<^verbatim>\<open>on\<close> or by \<^verbatim>\<open>once\<close>, before it returns,
  throws or suspends; a callback that runs such a body on a given event.
\<close>

fun registers :: "prog \<Rightarrow> bool" where
  "registers Return = False"
| "registers (Throw e) = False"
| "registers (Do (On h) p) = True"
| "registers (Do (Once h) p) = True"
| "registers (Do c p) = registers p"
| "registers (Await p) = False"

fun registers_handle :: "(nat \<Rightarrow> 'a event \<Rightarrow> prog) \<Rightarrow> 'a event \<Rightarrow> handle \<Rightarrow> bool" where
  "registers_handle env ev (Fn f) = registers (env f ev)"
| "registers_handle env ev (Wrapper k callback) = registers_handle env ev callback"
| "registers_handle env ev (Resolver p) = False"

text \<open>
  The error a body throws before it suspends, if it throws; the same of a callback on a
  given event.
\<close>

fun thrown :: "prog \<Rightarrow> string option" where
  "thrown Return = None"
| "thrown (Throw e) = Some e"
| "thrown (Do c p) = thrown p"
| "thrown (Await p) = None"

fun throws :: "(nat \<Rightarrow> 'a event \<Rightarrow> prog) \<Rightarrow> 'a event \<Rightarrow> handle \<Rightarrow> string option" where
  "throws env ev (Fn f) = thrown (env f ev)"
| "throws env ev (Wrapper k callback) = throws env ev callback"
| "throws env ev (Resolver p) = None"


text \<open>The body up to its first suspension point.\<close>

fun sync_part :: "prog \<Rightarrow> prog" where
  "sync_part Return = Return"
| "sync_part (Throw e) = Throw e"
| "sync_part (Do c p) = Do c (sync_part p)"
| "sync_part (Await p) = Await Return"

text \<open>
  Two states that differ at most in the flags at the addresses in \<open>A\<close> and in what the
  suspended callbacks have left to do.
\<close>

definition agree :: "nat set \<Rightarrow> 'a world \<Rightarrow> 'a world \<Rightarrow> bool" where
  "agree A w1 w2 \<longleftrightarrow>
     callbacks w1 = callbacks w2 \<and> last_val w1 = last_val w2 \<and>
     closures w1 = closures w2 \<and> promises w1 = promises w2 \<and>
     rejections w1 = rejections w2 \<and> console w1 = console w2 \<and>
     invocations w1 = invocations w2 \<and> length (flags w1) = length (flags w2) \<and>
     (\<forall>a. a \<notin> A \<longrightarrow> flags w1 ! a = flags w2 ! a)"


text \<open>The entry \<open>j\<close> of the registry holds the callback \<open>h\<close>.\<close>

definition slot :: "nat \<Rightarrow> handle \<Rightarrow> ('a, 'z) quicklime_scheme \<Rightarrow> bool" where
  "slot j h q \<longleftrightarrow> j < length (callbacks q) \<and> callbacks q ! j = Some h"

subsection \<open>Example programs\<close>

text \<open>
  Three callbacks, of which the second throws, on a dispatcher created with the
  initial value 0.
\<close>

definition scenario_env :: "nat \<Rightarrow> int event \<Rightarrow> prog" where
  "scenario_env f ev =
     (if f = 0 then Do (Log ''h1'') Return
      else if f = 1 then Throw ''h2 throws''
      else Do (Log ''h3'') Return)"

definition scenario :: "int world" where
  "scenario = on (Fn 2) (on (Fn 1) (on (Fn 0) (start (Some 0))))"

text \<open>
  Five callbacks, of which the third stops the propagation:
  \<^verbatim>\<open>myEvent.on(() => console.log("callback 1")).on(() => console.log("callback 2"))
  .on((event) => event.stopPropagation()).on(() => console.log("callback 3"))
  .on(() => console.log("callback 4"))\<close>
\<close>

definition stopping_env :: "nat \<Rightarrow> string event \<Rightarrow> prog" where
  "stopping_env f ev =
     (if f = 0 then Do (Log ''callback 1'') Return
      else if f = 1 then Do (Log ''callback 2'') Return
      else if f = 2 then Do StopPropagation Return
      else if f = 3 then Do (Log ''callback 3'') Return
      else Do (Log ''callback 4'') Return)"

definition stopping :: "string world" where
  "stopping = on (Fn 4) (on (Fn 3) (on (Fn 2) (on (Fn 1) (on (Fn 0) (start None)))))"

text \<open>
  Three callbacks: the first removes the second, the third removes the first.
  \<open>removing_begun\<close> is the state in which the loop of the dispatch of 1 begins.
\<close>

definition removing_env :: "nat \<Rightarrow> int event \<Rightarrow> prog" where
  "removing_env f ev =
     (if f = 0 then Do (Log ''first'') (Do (Off (Fn 1)) Return)
      else if f = 1 then Do (Log ''second'') Return
      else Do (Log ''third'') (Do (Off (Fn 0)) Return))"

definition removing :: "int world" where
  "removing = on (Fn 2) (on (Fn 1) (on (Fn 0) (start None)))"

definition removing_begun :: "int world" where
  "removing_begun = removing\<lparr>last_val := Some 1, flags := flags removing @ [False]\<rparr>"

text \<open>Two callbacks: the first removes the second and registers it again.\<close>

definition readding_env :: "nat \<Rightarrow> int event \<Rightarrow> prog" where
  "readding_env f ev =
     (if f = 0 then Do (Off (Fn 1)) (Do (On (Fn 1)) Return)
      else Do (Log ''second'') Return)"

definition readding :: "int world" where
  "readding = on (Fn 1) (on (Fn 0) (start None))"

text \<open>
  Five callbacks, of which the third throws:
  \<^verbatim>\<open>myEvent.on(() => console.log("callback 1")).on(() => console.log("callback 2"))
  .on(() => { throw new Error("..."); }).on(() => console.log("callback 3"))
  .on(() => console.log("callback 4"))\<close>
\<close>

definition failing_env :: "nat \<Rightarrow> string event \<Rightarrow> prog" where
  "failing_env f ev =
     (if f = 0 then Do (Log ''callback 1'') Return
      else if f = 1 then Do (Log ''callback 2'') Return
      else if f = 2 then Throw ''Error: behind me''
      else if f = 3 then Do (Log ''callback 3'') Return
      else Do (Log ''callback 4'') Return)"

definition failing :: "string world" where
  "failing = on (Fn 4) (on (Fn 3) (on (Fn 2) (on (Fn 1) (on (Fn 0) (start None)))))"

text \<open>
  Three callbacks: the first throws, the second stops the propagation, the third
  prints.
\<close>

definition blocked_env :: "nat \<Rightarrow> int event \<Rightarrow> prog" where
  "blocked_env f ev =
     (if f = 0 then Throw ''first throws''
      else if f = 1 then Do StopPropagation Return
      else Do (Log ''third'') Return)"

definition blocked :: "int world" where
  "blocked = on (Fn 2) (on (Fn 1) (on (Fn 0) (start None)))"

text \<open>
  A callback that removes itself, registers itself again and throws:
  \<^verbatim>\<open>const f = () => { d.off(f); d.on(f); throw e; }; d.on(f)\<close>
\<close>

definition restless_env :: "nat \<Rightarrow> int event \<Rightarrow> prog" where
  "restless_env f ev = Do (Off (Fn 0)) (Do (On (Fn 0)) (Throw ''again''))"

definition restless :: "int world" where
  "restless = on (Fn 0) (start None)"

text \<open>
  A callback that throws and a callback that throws when it resumes:
  \<^verbatim>\<open>d.on(() => { throw e1; }).on(async () => { await something; throw e2; })\<close>
\<close>

definition rejecting_env :: "nat \<Rightarrow> int event \<Rightarrow> prog" where
  "rejecting_env f ev = (if f = 0 then Throw ''e1'' else Await (Throw ''e2''))"

definition rejecting :: "int world" where
  "rejecting = on (Fn 1) (on (Fn 0) (start None))"









text \<open>
  A callback that suspends, registered by \<^verbatim>\<open>once\<close>:
  \<^verbatim>\<open>d.once(async () => { console.log("started"); await something; console.log("done"); })\<close>
  and the event of the dispatch of 1.
\<close>

definition suspending_env :: "nat \<Rightarrow> int event \<Rightarrow> prog" where
  "suspending_env f ev = Do (Log ''started'') (Await (Do (Log ''done'') Return))"

definition single :: "int world" where
  "single = once (Fn 0) (start None)"

definition single_event :: "int event" where
  "single_event = \<lparr>data = 1, last_ev = None, stopPropagation = 0\<rparr>"

text \<open>
  A callback that suspends and stops the propagation when it resumes, before a
  callback that prints:
  \<^verbatim>\<open>myEvent.on(async (event) => { await response.arrayBuffer(); event.stopPropagation(); })
  .on(() => console.log("I am fast"))\<close>
  and the same without the call of \<^verbatim>\<open>stopPropagation\<close>.
\<close>

definition late_env :: "nat \<Rightarrow> string event \<Rightarrow> prog" where
  "late_env f ev =
     (if f = 0 then Await (Do StopPropagation Return) else Do (Log ''I am fast'') Return)"

definition patient_env :: "nat \<Rightarrow> string event \<Rightarrow> prog" where
  "patient_env f ev = (if f = 0 then Await Return else Do (Log ''I am fast'') Return)"

definition late :: "string world" where
  "late = on (Fn 1) (on (Fn 0) (start None))"

text \<open>
  The state when the first dispatch on \<open>late\<close> has returned, and the state when the
  first callback has resumed after that.
\<close>

definition late_returned :: "string world" where
  "late_returned = the (dispatch 3 late_env ''first'' late)"

definition late_resumed :: "string world" where
  "late_resumed = run_task 0 late_returned"

text \<open>
  Three callbacks: the first suspends and stops the propagation when it resumes, the
  second stops the propagation at once, the third prints.
\<close>

definition overtaken_env :: "nat \<Rightarrow> int event \<Rightarrow> prog" where
  "overtaken_env f ev =
     (if f = 0 then Await (Do StopPropagation Return)
      else if f = 1 then Do StopPropagation Return
      else Do (Log ''third'') Return)"

definition overtaken :: "int world" where
  "overtaken = on (Fn 2) (on (Fn 1) (on (Fn 0) (start None)))"

section \<open>Properties\<close>

subsection \<open>The set of callbacks\<close>

lemma members_Nil [simp]: "members [] = []"
  by (simp add: members_def map_filter_simps)

lemma members_Cons [simp]:
  "members (e # es) = (case e of None \<Rightarrow> members es | Some h \<Rightarrow> h # members es)"
  by (simp add: members_def map_filter_simps split: option.split)

lemma members_append [simp]: "members (xs @ ys) = members xs @ members ys"
  by (induction xs) (auto split: option.split)

lemma set_members [simp]: "set (members es) = {h. Some h \<in> set es}"
  by (induction es) (auto split: option.split)

lemma members_set_delete: "members (set_delete h es) = removeAll h (members es)"
  by (induction es) (auto simp: set_delete_def split: option.split)

lemma members_set_clear [simp]: "members (set_clear es) = []"
  by (induction es) (auto simp: set_clear_def)

lemma members_set_add:
  "members (set_add h es) = (if h \<in> set (members es) then members es else members es @ [h])"
  by (simp add: set_add_def)

text \<open>
  C10. \<^verbatim>\<open>on(h)\<close> is idempotent: when \<open>h\<close> is registered already, \<^verbatim>\<open>on(h)\<close> changes
  nothing, neither the contents nor the order of the registry; when it is not, \<open>h\<close>
  goes to the end of the iteration order, behind the handles registered before. The
  registry of a new dispatcher is empty, and \<^verbatim>\<open>on\<close>, \<^verbatim>\<open>off\<close> and \<^verbatim>\<open>clear\<close> leave a
  registry that has no duplicates without duplicates.
\<close>

theorem on_idempotent:
  "(Some h \<in> set (callbacks q) \<longrightarrow> on h q = q) \<and>
   on h (on h q) = on h q \<and>
   (Some h \<notin> set (callbacks q) \<longrightarrow>
      members (callbacks (on h q)) = members (callbacks q) @ [h]) \<and>
   members (callbacks (constructor l)) = [] \<and>
   (distinct (members (callbacks q)) \<longrightarrow>
      distinct (members (callbacks (on h q))) \<and>
      distinct (members (callbacks (off h q))) \<and>
      distinct (members (callbacks (clear q))))"
  by (simp add: on_def off_def clear_def constructor_def set_add_def members_set_delete
      distinct_removeAll)

theorem on_idempotent_witness:
  "Some (Fn 1) \<in> set (callbacks (on (Fn 1) (on (Fn 0) (constructor (Some (7::int)))))) \<and>
   on (Fn 1) (on (Fn 1) (on (Fn 0) (constructor (Some (7::int))))) =
     on (Fn 1) (on (Fn 0) (constructor (Some 7))) \<and>
   Some (Fn 2) \<notin> set (callbacks (on (Fn 1) (on (Fn 0) (constructor (Some (7::int)))))) \<and>
   members (callbacks (on (Fn 2) (on (Fn 1) (on (Fn 0) (constructor (Some (7::int))))))) =
     [Fn 0, Fn 1, Fn 2] \<and>
   distinct (members (callbacks (on (Fn 1) (on (Fn 0) (constructor (Some (7::int))))))) \<and>
   distinct (members (callbacks (on (Fn 2) (on (Fn 1) (on (Fn 0) (constructor (Some (7::int))))))))"
  using on_idempotent [of "Fn 1" "on (Fn 1) (on (Fn 0) (constructor (Some (7::int))))"]
    on_idempotent [of "Fn 2" "on (Fn 1) (on (Fn 0) (constructor (Some (7::int))))"]
  by (simp add: on_def off_def clear_def set_add_def constructor_def)

subsection \<open>What a call leaves unchanged\<close>

lemma run_cmd_frame [simp]:
  "invocations (run_cmd ev c w) = invocations w"
  "last_val (run_cmd ev c w) = last_val w"
  "length (flags (run_cmd ev c w)) = length (flags w)"
  "promises (run_cmd ev c w) = promises w"
  "tasks (run_cmd ev c w) = tasks w"
  "rejections (run_cmd ev c w) = rejections w"
  by (cases c; simp add: on_def off_def clear_def once_def Let_def)+

lemma list_update_True: "xs ! a \<Longrightarrow> xs[i := True] ! a"
  by (cases "i < length xs") (simp_all add: nth_list_update list_update_beyond)

lemma run_cmd_flag: "flags w ! a \<Longrightarrow> flags (run_cmd ev c w) ! a"
  by (cases c) (simp_all add: on_def off_def clear_def once_def Let_def list_update_True)


lemma exec_frame [simp]:
  "invocations (snd (exec ev p w)) = invocations w"
  "last_val (snd (exec ev p w)) = last_val w"
  "length (flags (snd (exec ev p w))) = length (flags w)"
  "promises (snd (exec ev p w)) = promises w"
  "rejections (snd (exec ev p w)) = rejections w"
  by (induction p arbitrary: w; simp)+

lemma exec_flag: "flags w ! a \<Longrightarrow> flags (snd (exec ev p w)) ! a"
  by (induction p arbitrary: w) (simp_all add: run_cmd_flag)

lemma exec_stops:
  "stops p \<Longrightarrow> stopPropagation ev < length (flags w) \<Longrightarrow>
   flags (snd (exec ev p w)) ! stopPropagation ev"
proof (induction p arbitrary: w)
  case (Do c p)
  show ?case
  proof (cases "c = StopPropagation")
    case True
    with Do.prems have "flags (run_cmd ev c w) ! stopPropagation ev" by simp
    then show ?thesis by (simp add: exec_flag)
  next
    case False
    with Do show ?thesis by simp
  qed
qed simp_all

lemma call_Wrapper:
  "call env (Wrapper k h) ev w =
     (if fst (call env h ev w) = Returned
      then (Returned, off (Wrapper k h) (snd (call env h ev w)))
      else call env h ev w)"
  by (cases "call env h ev w"; cases "fst (call env h ev w)") auto

lemma off_frame [simp]:
  "invocations (off h w) = invocations w"
  "last_val (off h w) = last_val w"
  "flags (off h w) = flags w"
  "promises (off h w) = promises w"
  "rejections (off h w) = rejections w"
  "tasks (off h w) = tasks w"
  "console (off h w) = console w"
  "closures (off h w) = closures w"
  by (simp_all add: off_def)

lemma call_frame [simp]:
  "invocations (snd (call env h ev w)) = invocations w"
  "last_val (snd (call env h ev w)) = last_val w"
  "length (flags (snd (call env h ev w))) = length (flags w)"
  "length (promises (snd (call env h ev w))) = length (promises w)"
  "rejections (snd (call env h ev w)) = rejections w"
  by (induction h arbitrary: w; simp add: call_Wrapper resolve_def del: call.simps(2))+

lemma call_stops:
  "stops_handle env ev h \<Longrightarrow> stopPropagation ev < length (flags w) \<Longrightarrow>
   flags (snd (call env h ev w)) ! stopPropagation ev"
  by (induction h arbitrary: w)
    (simp_all add: call_Wrapper exec_stops del: call.simps(2))

lemma async_call_eq:
  "async_call env h ev w =
     (case fst (call env h ev w) of
        Returned \<Rightarrow> snd (call env h ev w)
      | Thrown e \<Rightarrow> (snd (call env h ev w))\<lparr>rejections := rejections w @ [e]\<rparr>)"
  by (cases "call env h ev w"; cases "fst (call env h ev w)")
    (use call_frame(5) [of env h ev w] in \<open>auto simp: async_call_def\<close>)

lemma async_call_frame [simp]:
  "invocations (async_call env h ev w) = invocations w"
  "last_val (async_call env h ev w) = last_val w"
  "length (flags (async_call env h ev w)) = length (flags w)"
  "length (promises (async_call env h ev w)) = length (promises w)"
  by (simp_all add: async_call_eq split: outcome.split)

lemma async_call_flags: "flags (async_call env h ev w) = flags (snd (call env h ev w))"
  by (simp add: async_call_eq split: outcome.split)


subsection \<open>The loop of dispatch\<close>

lemma note_call_frame [simp]:
  "callbacks (note_call i h ev w) = callbacks w"
  "last_val (note_call i h ev w) = last_val w"
  "flags (note_call i h ev w) = flags w"
  "promises (note_call i h ev w) = promises w"
  "tasks (note_call i h ev w) = tasks w"
  "closures (note_call i h ev w) = closures w"
  by (simp_all add: note_call_def)

lemma dispatch_loop_induct [consumes 1, case_names finished skip stopped continue]:
  assumes run: "dispatch_loop n env ev i w = Some w'"
    and finished: "\<And>i w. length (callbacks w) \<le> i \<Longrightarrow> P i w w"
    and skip: "\<And>m i w w'. i < length (callbacks w) \<Longrightarrow> callbacks w ! i = None \<Longrightarrow>
        dispatch_loop m env ev (Suc i) w = Some w' \<Longrightarrow> P (Suc i) w w' \<Longrightarrow> P i w w'"
    and stopped: "\<And>i w h. i < length (callbacks w) \<Longrightarrow> callbacks w ! i = Some h \<Longrightarrow>
        flags (async_call env h ev (note_call i h ev w)) ! stopPropagation ev \<Longrightarrow>
        P i w (async_call env h ev (note_call i h ev w))"
    and continue: "\<And>m i w h w'. i < length (callbacks w) \<Longrightarrow> callbacks w ! i = Some h \<Longrightarrow>
        \<not> flags (async_call env h ev (note_call i h ev w)) ! stopPropagation ev \<Longrightarrow>
        dispatch_loop m env ev (Suc i) (async_call env h ev (note_call i h ev w)) = Some w' \<Longrightarrow>
        P (Suc i) (async_call env h ev (note_call i h ev w)) w' \<Longrightarrow> P i w w'"
  shows "P i w w'"
  using run
proof (induction n arbitrary: i w)
  case 0
  then show ?case by simp
next
  case (Suc n)
  show ?case
  proof (cases "length (callbacks w) \<le> i")
    case True
    with Suc.prems finished show ?thesis by simp
  next
    case False
    then have i: "i < length (callbacks w)" by simp
    show ?thesis
    proof (cases "callbacks w ! i")
      case None
      with Suc.prems False have "dispatch_loop n env ev (Suc i) w = Some w'" by simp
      from skip [OF i None this Suc.IH [OF this]] show ?thesis .
    next
      case (Some h)
      let ?w = "async_call env h ev (note_call i h ev w)"
      show ?thesis
      proof (cases "flags ?w ! stopPropagation ev")
        case True
        with Suc.prems False Some have "w' = ?w" by (simp add: Let_def)
        with stopped [OF i Some True] show ?thesis by simp
      next
        case stop: False
        with Suc.prems False Some have "dispatch_loop n env ev (Suc i) ?w = Some w'"
          by (simp add: Let_def)
        from continue [OF i Some stop this Suc.IH [OF this]] show ?thesis .
      qed
    qed
  qed
qed

lemma dispatch_loop_last_val:
  "dispatch_loop n env ev i w = Some w' \<Longrightarrow> last_val w' = last_val w"
  by (induction rule: dispatch_loop_induct) simp_all

lemma invocations_note_call [simp]:
  "invocations (note_call i h ev w) = invocations w @
     [\<lparr>inv_pos = i, inv_handle = h, inv_event = ev, inv_last = last_val w\<rparr>]"
  by (simp add: note_call_def)

lemma dispatch_loop_grows:
  "dispatch_loop n env ev i w = Some w' \<Longrightarrow> \<exists>new. invocations w' = invocations w @ new"
  by (induction rule: dispatch_loop_induct) auto

lemma scheduled_refl [simp]: "scheduled w w = []"
  by (simp add: scheduled_def)

lemma scheduled_stopped [simp]:
  "scheduled w (async_call env h ev (note_call i h ev w)) =
     [\<lparr>inv_pos = i, inv_handle = h, inv_event = ev, inv_last = last_val w\<rparr>]"
  by (simp add: scheduled_def)

lemma scheduled_continue:
  assumes "dispatch_loop n env ev (Suc i) (async_call env h ev (note_call i h ev w)) = Some w'"
  shows "scheduled w w' = \<lparr>inv_pos = i, inv_handle = h, inv_event = ev, inv_last = last_val w\<rparr> #
    scheduled (async_call env h ev (note_call i h ev w)) w'"
proof -
  let ?w = "async_call env h ev (note_call i h ev w)"
  from dispatch_loop_grows [OF assms] obtain new
    where new: "invocations w' = invocations ?w @ new" by blast
  then have "scheduled ?w w' = new" by (simp add: scheduled_def)
  moreover from new have "scheduled w w' = hd (scheduled w ?w) # new"
    by (simp add: scheduled_def)
  ultimately show ?thesis by simp
qed


lemma async_call_stops:
  "stops_handle env ev h \<Longrightarrow> stopPropagation ev < length (flags w) \<Longrightarrow>
   flags (async_call env h ev w) ! stopPropagation ev"
  by (simp add: async_call_flags call_stops)

lemma dispatch_loop_scheduled:
  "dispatch_loop n env ev i w = Some w' \<Longrightarrow> x \<in> set (scheduled w w') \<Longrightarrow>
   i \<le> inv_pos x \<and> inv_event x = ev \<and> inv_last x = last_val w"
proof (induction rule: dispatch_loop_induct)
  case (continue m i w h w')
  then show ?case by (auto simp: scheduled_continue)
qed auto

lemma dispatch_loop_stops:
  "dispatch_loop n env ev i w = Some w' \<Longrightarrow> stopPropagation ev < length (flags w) \<Longrightarrow>
   x \<in> set (scheduled w w') \<Longrightarrow> stops_handle env ev (inv_handle x) \<Longrightarrow>
   y \<in> set (scheduled w w') \<Longrightarrow> inv_pos y \<le> inv_pos x"
proof (induction rule: dispatch_loop_induct)
  case (continue m i w h w')
  let ?w = "async_call env h ev (note_call i h ev w)"
  from continue.hyps(3) have "\<not> stops_handle env ev h"
    using async_call_stops [where env = env and h = h and ev = ev and w = "note_call i h ev w"]
      continue.prems(1) by auto
  with continue.prems have x: "x \<in> set (scheduled ?w w')"
    by (auto simp: scheduled_continue [OF continue.hyps(4)])
  show ?case
  proof (cases "y \<in> set (scheduled ?w w')")
    case True
    with continue.IH x continue.prems show ?thesis by simp
  next
    case False
    with continue.prems(4) have "inv_pos y = i"
      by (auto simp: scheduled_continue [OF continue.hyps(4)])
    with dispatch_loop_scheduled [OF continue.hyps(4) x] show ?thesis by simp
  qed
qed auto

lemma dispatch_loop_of:
  "dispatch n env d w =
     dispatch_loop n env (event_of d w) 0 (w\<lparr>last_val := Some d, flags := flags w @ [False]\<rparr>)"
  by (simp add: dispatch_def event_of_def Let_def)

lemma event_of_simps [simp]:
  "data (event_of d w) = d" "last_ev (event_of d w) = last_val w"
  "stopPropagation (event_of d w) = length (flags w)"
  by (simp_all add: event_of_def)

lemma dispatch_scheduled:
  assumes "dispatch n env d w = Some w'"
  shows "scheduled w w' =
    scheduled (w\<lparr>last_val := Some d, flags := flags w @ [False]\<rparr>) w'"
  by (simp add: scheduled_def)

text \<open>
  C3. When a callback that calls \<^verbatim>\<open>stopPropagation\<close> before it returns, throws or
  suspends is called at position \<open>i\<close> of the iteration of a dispatch, no callback is
  called at a position greater than \<open>i\<close> in that dispatch.
\<close>

theorem stopPropagation_ends_iteration:
  assumes "dispatch n env d w = Some w'"
    and "x \<in> set (scheduled w w')"
    and "stops_handle env (inv_event x) (inv_handle x)"
    and "y \<in> set (scheduled w w')"
  shows "inv_pos y \<le> inv_pos x"
proof -
  let ?w = "w\<lparr>last_val := Some d, flags := flags w @ [False]\<rparr>"
  from assms(1) have run: "dispatch_loop n env (event_of d w) 0 ?w = Some w'"
    by (simp add: dispatch_loop_of)
  have less: "stopPropagation (event_of d w) < length (flags ?w)"
    by (simp add: event_of_def)
  from assms(2) have x: "x \<in> set (scheduled ?w w')"
    by (simp add: dispatch_scheduled [OF assms(1)])
  with dispatch_loop_scheduled [OF run] have "inv_event x = event_of d w" by blast
  with assms(3) have "stops_handle env (event_of d w) (inv_handle x)" by simp
  from dispatch_loop_stops [OF run less x this] assms(4) show ?thesis
    by (simp add: dispatch_scheduled [OF assms(1)])
qed

theorem stopPropagation_ends_iteration_witness:
  "dispatch 6 stopping_env ''My name is Quicklime'' stopping \<noteq> None \<and>
   map inv_handle (scheduled stopping
     (the (dispatch 6 stopping_env ''My name is Quicklime'' stopping))) = [Fn 0, Fn 1, Fn 2] \<and>
   stops_handle stopping_env (event_of ''My name is Quicklime'' stopping) (Fn 2) \<and>
   list_all (\<lambda>y. inv_pos y \<le> 2) (scheduled stopping
     (the (dispatch 6 stopping_env ''My name is Quicklime'' stopping)))"
proof -
  let ?w' = "the (dispatch 6 stopping_env ''My name is Quicklime'' stopping)"
  let ?x = "\<lparr>inv_pos = 2, inv_handle = Fn 2,
    inv_event = \<lparr>data = ''My name is Quicklime'', last_ev = None, stopPropagation = 0\<rparr>,
    inv_last = Some ''My name is Quicklime''\<rparr>"
  have ne: "dispatch 6 stopping_env ''My name is Quicklime'' stopping \<noteq> None"
    by code_simp
  then have run: "dispatch 6 stopping_env ''My name is Quicklime'' stopping = Some ?w'"
    by simp
  have x: "?x \<in> set (scheduled stopping ?w')" by code_simp
  have s: "stops_handle stopping_env (inv_event ?x) (inv_handle ?x)" by code_simp
  have s': "stops_handle stopping_env (event_of ''My name is Quicklime'' stopping) (Fn 2)"
    by code_simp
  have hs: "map inv_handle (scheduled stopping ?w') = [Fn 0, Fn 1, Fn 2]" by code_simp
  from stopPropagation_ends_iteration [OF run x s]
  have "list_all (\<lambda>y. inv_pos y \<le> 2) (scheduled stopping ?w')"
    by (simp add: list_all_iff)
  with ne hs s' show ?thesis by simp
qed

text \<open>
  C5. \<^verbatim>\<open>last\<close> is the initial value of the constructor until the first dispatch: no
  other method writes it. A dispatch of \<open>d\<close> that returns leaves \<^verbatim>\<open>last\<close> = \<open>d\<close>, whatever
  the callbacks do; at every call of a callback in that dispatch \<^verbatim>\<open>this.last\<close> is \<open>d\<close>
  already, and the event passed has \<^verbatim>\<open>data\<close> = \<open>d\<close> and \<^verbatim>\<open>last\<close> = the value of
  \<^verbatim>\<open>this.last\<close> before the dispatch.
\<close>

theorem dispatch_sets_last:
  "last_val (constructor l) = l \<and> last_val (start l) = l \<and>
   last_val (on h w) = last_val w \<and> last_val (off h w) = last_val w \<and>
   last_val (clear w) = last_val w \<and> last_val (once h w) = last_val w \<and>
   last_val (snd (next_event w)) = last_val w \<and> last_val (run_task k w) = last_val w \<and>
   (dispatch n env d w = Some w' \<longrightarrow>
      last_val w' = Some d \<and>
      (\<forall>x \<in> set (scheduled w w').
         inv_last x = Some d \<and> data (inv_event x) = d \<and> last_ev (inv_event x) = last_val w))"
proof -
  have task: "last_val (run_task k w) = last_val w"
  proof (cases "length (tasks w) \<le> k")
    case True
    then show ?thesis by (simp add: run_task_def)
  next
    case False
    let ?w = "w\<lparr>tasks := take k (tasks w) @ drop (Suc k) (tasks w)\<rparr>"
    obtain ev p where t: "tasks w ! k = (ev, p)" by (cases "tasks w ! k")
    obtain r v where e: "exec ev p ?w = (r, v)" by (cases "exec ev p ?w")
    from exec_frame(2) [of ev p ?w] e have "last_val v = last_val w" by simp
    with False t e show ?thesis
      by (cases r) (simp_all add: run_task_def)
  qed
  have disp: "last_val w' = Some d \<and>
      (\<forall>x \<in> set (scheduled w w').
         inv_last x = Some d \<and> data (inv_event x) = d \<and> last_ev (inv_event x) = last_val w)"
    if run: "dispatch n env d w = Some w'"
  proof -
    let ?w = "w\<lparr>last_val := Some d, flags := flags w @ [False]\<rparr>"
    from run have loop: "dispatch_loop n env (event_of d w) 0 ?w = Some w'"
      by (simp add: dispatch_loop_of)
    from dispatch_loop_last_val [OF loop] have "last_val w' = Some d" by simp
    moreover have "inv_last x = Some d \<and> data (inv_event x) = d \<and>
        last_ev (inv_event x) = last_val w" if "x \<in> set (scheduled w w')" for x
      using dispatch_loop_scheduled [OF loop, of x] that
      by (simp add: dispatch_scheduled [OF run])
    ultimately show ?thesis by blast
  qed
  show ?thesis
    using task disp
    by (simp add: constructor_def start_def on_def off_def clear_def once_def next_event_def
        Let_def)
qed

theorem dispatch_sets_last_witness:
  "last_val scenario = Some 0 \<and>
   dispatch 4 scenario_env 5 scenario \<noteq> None \<and>
   last_val (the (dispatch 4 scenario_env 5 scenario)) = Some 5 \<and>
   map inv_handle (scheduled scenario (the (dispatch 4 scenario_env 5 scenario))) =
     [Fn 0, Fn 1, Fn 2] \<and>
   list_all (\<lambda>x. inv_last x = Some 5 \<and> data (inv_event x) = 5 \<and>
       last_ev (inv_event x) = Some 0)
     (scheduled scenario (the (dispatch 4 scenario_env 5 scenario)))"
proof -
  let ?w' = "the (dispatch 4 scenario_env 5 scenario)"
  have ne: "dispatch 4 scenario_env 5 scenario \<noteq> None" by code_simp
  then have run: "dispatch 4 scenario_env 5 scenario = Some ?w'" by simp
  have l: "last_val scenario = Some 0" by code_simp
  have hs: "map inv_handle (scheduled scenario ?w') = [Fn 0, Fn 1, Fn 2]" by code_simp
  from dispatch_sets_last [where w = scenario and n = 4 and env = scenario_env and d = 5
      and w' = ?w'] run
  have "last_val ?w' = Some 5 \<and>
    (\<forall>x \<in> set (scheduled scenario ?w'). inv_last x = Some 5 \<and> data (inv_event x) = 5 \<and>
       last_ev (inv_event x) = last_val scenario)"
    by blast
  with l have "last_val ?w' = Some 5 \<and>
    list_all (\<lambda>x. inv_last x = Some 5 \<and> data (inv_event x) = 5 \<and>
       last_ev (inv_event x) = Some 0) (scheduled scenario ?w')"
    by (simp add: list_all_iff)
  with ne l hs show ?thesis by simp
qed


subsection \<open>The iteration reads the registry as it is\<close>

lemma later_refl [simp]: "later es es"
  by (simp add: later_def)

lemma later_trans: "later es es' \<Longrightarrow> later es' es'' \<Longrightarrow> later es es''"
  unfolding later_def by (metis (no_types, lifting) less_le_trans order_trans)

lemma later_set_add [simp]: "later es (set_add h es)"
  by (simp add: later_def set_add_def nth_append)

lemma later_set_delete [simp]: "later es (set_delete h es)"
  by (simp add: later_def set_delete_def)

lemma later_set_clear [simp]: "later es (set_clear es)"
  by (simp add: later_def set_clear_def)

lemma later_run_cmd: "later (callbacks w) (callbacks (run_cmd ev c w))"
  by (cases c) (simp_all add: on_def off_def clear_def once_def Let_def)

lemma later_exec: "later (callbacks w) (callbacks (snd (exec ev p w)))"
proof (induction p arbitrary: w)
  case (Do c p)
  from later_trans [OF later_run_cmd Do.IH] show ?case by simp
qed simp_all

lemma later_call: "later (callbacks w) (callbacks (snd (call env h ev w)))"
proof (induction h arbitrary: w)
  case (Wrapper k h)
  have "later (callbacks (snd (call env h ev w)))
    (callbacks (off (Wrapper k h) (snd (call env h ev w))))"
    by (simp add: off_def)
  from later_trans [OF Wrapper.IH this] Wrapper.IH show ?case
    by (simp add: call_Wrapper del: call.simps(2))
qed (simp_all add: later_exec resolve_def)

lemma async_call_callbacks:
  "callbacks (async_call env h ev w) = callbacks (snd (call env h ev w))"
  by (simp add: async_call_eq split: outcome.split)

lemma later_async_call: "later (callbacks w) (callbacks (async_call env h ev (note_call i h ev w)))"
  using later_call [of "note_call i h ev w" env h ev] by (simp add: async_call_callbacks)

lemma dispatch_loop_slot:
  "dispatch_loop n env ev i w = Some w' \<Longrightarrow> x \<in> set (scheduled w w') \<Longrightarrow>
   inv_pos x < length (callbacks w) \<Longrightarrow> callbacks w ! inv_pos x = Some (inv_handle x)"
proof (induction rule: dispatch_loop_induct)
  case (continue m i w h w')
  let ?w = "async_call env h ev (note_call i h ev w)"
  show ?case
  proof (cases "x \<in> set (scheduled ?w w')")
    case True
    have l: "later (callbacks w) (callbacks ?w)" by (rule later_async_call)
    with continue.prems(2) have "inv_pos x < length (callbacks ?w)"
      by (simp add: later_def)
    from continue.IH [OF True this] l continue.prems(2) show ?thesis
      by (auto simp: later_def)
  next
    case False
    with continue.prems(1) continue.hyps(2) show ?thesis
      by (auto simp: scheduled_continue [OF continue.hyps(4)])
  qed
qed auto

lemma exec_tasks: "\<exists>new. tasks (snd (exec ev p w)) = tasks w @ new"
proof (induction p arbitrary: w)
  case (Do c p)
  from Do.IH [of "run_cmd ev c w"] show ?case by simp
qed simp_all

lemma call_tasks: "\<exists>new. tasks (snd (call env h ev w)) = tasks w @ new"
  by (induction h arbitrary: w)
    (simp_all add: call_Wrapper exec_tasks resolve_def del: call.simps(2))

lemma async_call_tasks: "tasks (async_call env h ev w) = tasks (snd (call env h ev w))"
  by (simp add: async_call_eq split: outcome.split)

lemma dispatch_loop_tasks:
  "dispatch_loop n env ev i w = Some w' \<Longrightarrow> \<exists>new. tasks w' = tasks w @ new"
proof (induction rule: dispatch_loop_induct)
  case (stopped i w h)
  from call_tasks [of env h ev "note_call i h ev w"] show ?case
    by (simp add: async_call_tasks)
next
  case (continue m i w h w')
  from call_tasks [of env h ev "note_call i h ev w"] continue.IH show ?case
    by (auto simp: async_call_tasks)
qed auto

lemma dispatch_loop_later:
  "dispatch_loop n env ev i w = Some w' \<Longrightarrow> later (callbacks w) (callbacks w')"
proof (induction rule: dispatch_loop_induct)
  case (continue m i w h w')
  from later_trans [OF later_async_call continue.IH] show ?case .
qed (simp_all add: later_async_call)

lemma dispatch_loop_pos:
  "dispatch_loop n env ev i w = Some w' \<Longrightarrow> x \<in> set (scheduled w w') \<Longrightarrow>
   inv_pos x < length (callbacks w')"
proof (induction rule: dispatch_loop_induct)
  case (stopped i w h)
  with later_async_call [of w env h ev i] show ?case by (simp add: later_def)
next
  case (continue m i w h w')
  let ?w = "async_call env h ev (note_call i h ev w)"
  show ?case
  proof (cases "x \<in> set (scheduled ?w w')")
    case True
    with continue.IH show ?thesis by simp
  next
    case False
    with continue.prems have "inv_pos x = i"
      by (auto simp: scheduled_continue [OF continue.hyps(4)])
    with continue.hyps(1) later_async_call [of w env h ev i]
      dispatch_loop_later [OF continue.hyps(4)]
    show ?thesis by (simp add: later_def)
  qed
qed auto

lemma slot_later:
  "slot j h w \<Longrightarrow> later (callbacks w) (callbacks w') \<Longrightarrow> \<not> slot j h w' \<Longrightarrow>
   j < length (callbacks w') \<and> callbacks w' ! j = None"
  by (auto simp: slot_def later_def)

lemma later_None:
  "later es es' \<Longrightarrow> j < length es \<Longrightarrow> es ! j = None \<Longrightarrow> es' ! j = None"
  by (auto simp: later_def)

lemma dispatch_loop_step:
  assumes "dispatch_loop n env ev i w = Some w'" and "slot i g w"
  shows "(flags (async_call env g ev (note_call i g ev w)) ! stopPropagation ev \<and>
          w' = async_call env g ev (note_call i g ev w)) \<or>
         (\<not> flags (async_call env g ev (note_call i g ev w)) ! stopPropagation ev \<and>
          (\<exists>m. dispatch_loop m env ev (Suc i) (async_call env g ev (note_call i g ev w)) =
             Some w'))"
proof (cases n)
  case 0
  with assms(1) show ?thesis by simp
next
  case (Suc m)
  with assms show ?thesis
    by (cases "flags (async_call env g ev (note_call i g ev w)) ! stopPropagation ev")
      (auto simp: slot_def Let_def)
qed

lemma members_nth: "a < length es \<Longrightarrow> es ! a = Some h \<Longrightarrow> h \<in> set (members es)"
  by (auto simp: in_set_conv_nth)

lemma distinct_slot:
  "distinct (members es) \<Longrightarrow> a < length es \<Longrightarrow> b < length es \<Longrightarrow>
   es ! a = Some h \<Longrightarrow> es ! b = Some h \<Longrightarrow> a = b"
proof (induction es arbitrary: a b)
  case Nil
  then show ?case by simp
next
  case (Cons e es)
  show ?case
  proof (cases a)
    case a: 0
    show ?thesis
    proof (cases b)
      case 0
      with a show ?thesis by simp
    next
      case (Suc b')
      with Cons.prems have "b' < length es" "es ! b' = Some h" by simp_all
      then have "h \<in> set (members es)" by (rule members_nth)
      with Cons.prems a show ?thesis by simp
    qed
  next
    case a: (Suc a')
    show ?thesis
    proof (cases b)
      case 0
      from a Cons.prems have "a' < length es" "es ! a' = Some h" by simp_all
      then have "h \<in> set (members es)" by (rule members_nth)
      with Cons.prems 0 show ?thesis by simp
    next
      case (Suc b')
      from Cons.prems have "distinct (members es)" by (cases e) simp_all
      from Cons.IH [OF this, of a' b'] Cons.prems a Suc show ?thesis by simp
    qed
  qed
qed

text \<open>No method and no dispatch makes a duplicate in the registry.\<close>

lemma distinct_on: "distinct (members (callbacks q)) \<Longrightarrow> distinct (members (callbacks (on h q)))"
  by (simp add: on_def set_add_def)

lemma distinct_off: "distinct (members (callbacks q)) \<Longrightarrow> distinct (members (callbacks (off h q)))"
  by (simp add: off_def members_set_delete distinct_removeAll)

lemma distinct_once:
  "distinct (members (callbacks w)) \<Longrightarrow> distinct (members (callbacks (once h w)))"
  by (simp add: once_def Let_def distinct_on)

lemma distinct_run_cmd:
  "distinct (members (callbacks w)) \<Longrightarrow> distinct (members (callbacks (run_cmd ev c w)))"
  by (cases c) (simp_all add: distinct_on distinct_off distinct_once clear_def)

lemma distinct_exec:
  "distinct (members (callbacks w)) \<Longrightarrow> distinct (members (callbacks (snd (exec ev p w))))"
  by (induction p arbitrary: w) (simp_all add: distinct_run_cmd)

lemma distinct_call:
  "distinct (members (callbacks w)) \<Longrightarrow> distinct (members (callbacks (snd (call env h ev w))))"
  by (induction h arbitrary: w)
    (simp_all add: call_Wrapper distinct_exec distinct_off resolve_def del: call.simps(2))

lemma distinct_async_call:
  "distinct (members (callbacks w)) \<Longrightarrow>
   distinct (members (callbacks (async_call env h ev (note_call i h ev w))))"
  using distinct_call [of "note_call i h ev w" env h ev] by (simp add: async_call_callbacks)

lemma distinct_dispatch_loop:
  "dispatch_loop n env ev i w = Some w' \<Longrightarrow> distinct (members (callbacks w)) \<Longrightarrow>
   distinct (members (callbacks w'))"
  by (induction rule: dispatch_loop_induct) (simp_all add: distinct_async_call)

lemma distinct_dispatch:
  "dispatch n env d w = Some w' \<Longrightarrow> distinct (members (callbacks w)) \<Longrightarrow>
   distinct (members (callbacks w'))"
  using distinct_dispatch_loop
    [of n env "event_of d w" 0 "w\<lparr>last_val := Some d, flags := flags w @ [False]\<rparr>" w']
  by (simp add: dispatch_loop_of)

text \<open>
  C8, as amended. The iteration reads the registry as it is when the iterator gets to a
  position, not as it was when the dispatch began. Let the iterator stand at position
  \<open>i\<close>, where the callback \<open>g\<close> is registered, and let \<open>h\<close> be registered at a position
  \<open>j\<close> behind it; let the call of \<open>g\<close> remove \<open>h\<close>, by \<^verbatim>\<open>off\<close>, by \<^verbatim>\<open>clear\<close> or
  otherwise. Then the rest of that dispatch calls nothing at position \<open>j\<close>, where a loop
  over a snapshot would call \<open>h\<close>. In a registry without duplicates, as every registry
  is, a call of \<open>h\<close> in the rest of that dispatch is at a position that the registry did
  not have when \<open>g\<close> was called: it takes a registration of \<open>h\<close> made after the removal,
  and when nothing is registered in the rest of the dispatch, \<open>h\<close> is not called at all.
  The calls issued before a removal stay issued, and the callbacks that are suspended
  stay suspended: a removal changes the registry and nothing else.
\<close>

theorem dispatch_iterates_live_registry:
  assumes "dispatch_loop n env ev i w = Some w'"
    and "slot i g w" and "slot j h w" and "i < j"
    and "\<not> slot j h (async_call env g ev (note_call i g ev w))"
  shows "(\<forall>x \<in> set (scheduled w w'). inv_pos x \<noteq> j) \<and>
         (distinct (members (callbacks w)) \<longrightarrow>
            (\<forall>x \<in> set (scheduled w w').
               inv_handle x = h \<longrightarrow> length (callbacks w) \<le> inv_pos x) \<and>
            (length (callbacks w') = length (callbacks w) \<longrightarrow>
               h \<notin> inv_handle ` set (scheduled w w'))) \<and>
         take (length (invocations w)) (invocations w') = invocations w \<and>
         take (length (tasks w)) (tasks w') = tasks w \<and>
         invocations (off h w) = invocations w \<and> tasks (off h w) = tasks w \<and>
         promises (off h w) = promises w \<and> console (off h w) = console w \<and>
         rejections (off h w) = rejections w \<and> flags (off h w) = flags w"
proof -
  let ?x = "\<lparr>inv_pos = i, inv_handle = g, inv_event = ev, inv_last = last_val w\<rparr>"
  let ?w = "async_call env g ev (note_call i g ev w)"
  have l: "later (callbacks w) (callbacks ?w)" by (rule later_async_call)
  from slot_later [OF assms(3) l assms(5)]
  have gone: "j < length (callbacks ?w)" "callbacks ?w ! j = None" by simp_all
  have rest: "inv_pos x \<noteq> j \<and>
      (inv_pos x < length (callbacks w) \<longrightarrow> callbacks w ! inv_pos x = Some (inv_handle x))"
    if run: "dispatch_loop m env ev (Suc i) ?w = Some w'" and x: "x \<in> set (scheduled ?w w')"
    for m x
  proof -
    have "inv_pos x \<noteq> j"
    proof
      assume "inv_pos x = j"
      with dispatch_loop_slot [OF run x] gone show False by simp
    qed
    moreover have "callbacks w ! inv_pos x = Some (inv_handle x)"
      if less: "inv_pos x < length (callbacks w)"
    proof -
      from l less have "inv_pos x < length (callbacks ?w)" by (simp add: later_def)
      from dispatch_loop_slot [OF run x this] l less show ?thesis
        by (auto simp: later_def)
    qed
    ultimately show ?thesis by blast
  qed
  have sched: "scheduled w w' = [?x] \<or>
      (\<exists>m. dispatch_loop m env ev (Suc i) ?w = Some w' \<and>
         scheduled w w' = ?x # scheduled ?w w')"
    using dispatch_loop_step [OF assms(1,2)] scheduled_continue [of _ env ev i g w w']
    by auto
  have all: "inv_pos x \<noteq> j \<and>
      (inv_pos x < length (callbacks w) \<longrightarrow> callbacks w ! inv_pos x = Some (inv_handle x))"
    if "x \<in> set (scheduled w w')" for x
  proof (cases "x = ?x")
    case True
    with assms(2,4) show ?thesis by (simp add: slot_def)
  next
    case False
    with sched that obtain m where "dispatch_loop m env ev (Suc i) ?w = Some w'"
      and "x \<in> set (scheduled ?w w')" by auto
    then show ?thesis by (rule rest)
  qed
  have new: "length (callbacks w) \<le> inv_pos x"
    if d: "distinct (members (callbacks w))" and x: "x \<in> set (scheduled w w')"
      and h: "inv_handle x = h" for x
  proof (rule ccontr)
    assume "\<not> length (callbacks w) \<le> inv_pos x"
    then have less: "inv_pos x < length (callbacks w)" by simp
    with all [OF x] h have "callbacks w ! inv_pos x = Some h" by simp
    from distinct_slot [OF d less _ this, of j] assms(3) have "inv_pos x = j"
      by (simp add: slot_def)
    with all [OF x] show False by simp
  qed
  have none: "h \<notin> inv_handle ` set (scheduled w w')"
    if "distinct (members (callbacks w))" and "length (callbacks w') = length (callbacks w)"
    using new [OF that(1)] dispatch_loop_pos [OF assms(1)] that(2) by fastforce
  from dispatch_loop_grows [OF assms(1)]
  have "take (length (invocations w)) (invocations w') = invocations w" by auto
  moreover from dispatch_loop_tasks [OF assms(1)]
  have "take (length (tasks w)) (tasks w') = tasks w" by auto
  moreover have "invocations (off h w) = invocations w \<and> tasks (off h w) = tasks w \<and>
    promises (off h w) = promises w \<and> console (off h w) = console w \<and>
    rejections (off h w) = rejections w \<and> flags (off h w) = flags w"
    by (simp add: off_def)
  ultimately show ?thesis using all new none by blast
qed

theorem dispatch_iterates_live_registry_witness:
  "dispatch 4 removing_env 1 removing =
     dispatch_loop 4 removing_env (event_of 1 removing) 0 removing_begun \<and>
   dispatch 4 removing_env 1 removing \<noteq> None \<and>
   members (callbacks removing_begun) = [Fn 0, Fn 1, Fn 2] \<and>
   slot 0 (Fn 0) removing_begun \<and> slot 1 (Fn 1) removing_begun \<and>
   members (callbacks (async_call removing_env (Fn 0) (event_of 1 removing)
     (note_call 0 (Fn 0) (event_of 1 removing) removing_begun))) = [Fn 0, Fn 2] \<and>
   map inv_handle (scheduled removing_begun (the (dispatch 4 removing_env 1 removing))) =
     [Fn 0, Fn 2] \<and>
   list_all (\<lambda>x. inv_pos x \<noteq> 1)
     (scheduled removing_begun (the (dispatch 4 removing_env 1 removing))) \<and>
   Fn 1 \<notin> inv_handle ` set (scheduled removing_begun
     (the (dispatch 4 removing_env 1 removing))) \<and>
   members (callbacks (the (dispatch 4 removing_env 1 removing))) = [Fn 2] \<and>
   console (the (dispatch 4 removing_env 1 removing)) = [''first'', ''third'']"
proof -
  let ?w' = "the (dispatch 4 removing_env 1 removing)"
  let ?ev = "event_of 1 removing"
  have eq: "dispatch 4 removing_env 1 removing =
     dispatch_loop 4 removing_env ?ev 0 removing_begun"
    by (simp add: dispatch_loop_of removing_begun_def)
  have ne: "dispatch 4 removing_env 1 removing \<noteq> None" by code_simp
  with eq have run: "dispatch_loop 4 removing_env ?ev 0 removing_begun = Some ?w'"
    by simp
  have s0: "slot 0 (Fn 0) removing_begun" by code_simp
  have s1: "slot 1 (Fn 1) removing_begun" by code_simp
  have gone: "\<not> slot 1 (Fn 1) (async_call removing_env (Fn 0) ?ev
    (note_call 0 (Fn 0) ?ev removing_begun))" by code_simp
  have d: "distinct (members (callbacks removing_begun))" by code_simp
  have len: "length (callbacks ?w') = length (callbacks removing_begun)" by code_simp
  have facts: "members (callbacks removing_begun) = [Fn 0, Fn 1, Fn 2]"
    "members (callbacks (async_call removing_env (Fn 0) ?ev
       (note_call 0 (Fn 0) ?ev removing_begun))) = [Fn 0, Fn 2]"
    "map inv_handle (scheduled removing_begun ?w') = [Fn 0, Fn 2]"
    "members (callbacks ?w') = [Fn 2]"
    "console ?w' = [''first'', ''third'']"
    by code_simp+
  from dispatch_iterates_live_registry [OF run s0 s1 _ gone] d len
  have "(\<forall>x \<in> set (scheduled removing_begun ?w'). inv_pos x \<noteq> 1) \<and>
    Fn 1 \<notin> inv_handle ` set (scheduled removing_begun ?w')"
    by simp
  then have "list_all (\<lambda>x. inv_pos x \<noteq> 1) (scheduled removing_begun ?w') \<and>
    Fn 1 \<notin> inv_handle ` set (scheduled removing_begun ?w')"
    by (simp add: list_all_iff)
  with eq ne s0 s1 facts show ?thesis by simp
qed

text \<open>
  C8 as stated fails: the first callback removes the second, which the iteration has not
  reached, and registers it again; the second callback is called in that dispatch, at
  the new position 2.
\<close>

theorem removed_handle_is_invoked_when_registered_again:
  "members (callbacks readding) = [Fn 0, Fn 1] \<and>
   readding_env 0 (event_of 1 readding) = Do (Off (Fn 1)) (Do (On (Fn 1)) Return) \<and>
   members (callbacks (off (Fn 1) readding)) = [Fn 0] \<and>
   dispatch 4 readding_env 1 readding \<noteq> None \<and>
   map (\<lambda>x. (inv_pos x, inv_handle x))
     (scheduled readding (the (dispatch 4 readding_env 1 readding))) =
     [(0, Fn 0), (2, Fn 1)] \<and>
   console (the (dispatch 4 readding_env 1 readding)) = [''second'']"
  by code_simp

subsection \<open>What a throw does\<close>

lemma exec_outcome:
  "fst (exec ev p w) = (case thrown p of None \<Rightarrow> Returned | Some e \<Rightarrow> Thrown e)"
  by (induction p arbitrary: w) simp_all

lemma call_outcome:
  "fst (call env h ev w) = (case throws env ev h of None \<Rightarrow> Returned | Some e \<Rightarrow> Thrown e)"
  by (induction h arbitrary: w)
    (simp_all add: call_Wrapper exec_outcome del: call.simps(2) split: option.split)

lemma async_call_rejections:
  "rejections (async_call env h ev w) =
     rejections w @ (case throws env ev h of None \<Rightarrow> [] | Some e \<Rightarrow> [e])"
  by (simp add: async_call_eq call_outcome split: option.split)

lemma rejections_note_call [simp]: "rejections (note_call i h ev w) = rejections w"
  by (simp add: note_call_def)

lemma dispatch_loop_rejections:
  "dispatch_loop n env ev i w = Some w' \<Longrightarrow>
   rejections w' = rejections w @
     List.map_filter (\<lambda>x. throws env ev (inv_handle x)) (scheduled w w')"
proof (induction rule: dispatch_loop_induct)
  case (stopped i w h)
  show ?case
    by (simp add: async_call_rejections map_filter_simps split: option.split)
next
  case (continue m i w h w')
  then show ?case
    by (simp add: async_call_rejections map_filter_simps scheduled_continue [OF continue.hyps(4)]
        split: option.split)
qed (simp_all add: map_filter_simps)

lemma map_filter_cong_set:
  "(\<And>x. x \<in> set xs \<Longrightarrow> f x = g x) \<Longrightarrow> List.map_filter f xs = List.map_filter g xs"
  by (induction xs) (auto simp: map_filter_simps split: option.split)

lemma dispatch_rejections:
  assumes "dispatch n env d w = Some w'"
  shows "rejections w' = rejections w @
     List.map_filter (\<lambda>x. throws env (inv_event x) (inv_handle x)) (scheduled w w')"
proof -
  let ?w = "w\<lparr>last_val := Some d, flags := flags w @ [False]\<rparr>"
  from assms have run: "dispatch_loop n env (event_of d w) 0 ?w = Some w'"
    by (simp add: dispatch_loop_of)
  have "List.map_filter (\<lambda>x. throws env (inv_event x) (inv_handle x)) (scheduled ?w w') =
      List.map_filter (\<lambda>x. throws env (event_of d w) (inv_handle x)) (scheduled ?w w')"
    using dispatch_loop_scheduled [OF run] by (intro map_filter_cong_set) simp
  with dispatch_loop_rejections [OF run] show ?thesis
    by (simp add: dispatch_scheduled [OF assms])
qed

lemma run_task_rejections:
  assumes "k < length (tasks w)" and "tasks w ! k = (ev, p)"
  shows "rejections (run_task k w) =
    rejections w @ (case thrown p of None \<Rightarrow> [] | Some e \<Rightarrow> [e])"
proof -
  let ?w = "w\<lparr>tasks := take k (tasks w) @ drop (Suc k) (tasks w)\<rparr>"
  obtain r v where e: "exec ev p ?w = (r, v)" by (cases "exec ev p ?w")
  from exec_frame [of ev p ?w] e have "rejections v = rejections w" by simp
  moreover from exec_outcome [of ev p ?w] e
  have "r = (case thrown p of None \<Rightarrow> Returned | Some e \<Rightarrow> Thrown e)" by simp
  ultimately show ?thesis using assms e
    by (simp add: run_task_def split: option.split)
qed

text \<open>
  C1. An error that a callback throws goes no further than the call that
  \<^verbatim>\<open>dispatch\<close> made of it, and ends as an unhandled rejection, which is what the host
  reports. The call of a callback that throws \<open>e\<close> before it suspends adds \<open>e\<close>, the error
  as it was thrown, stack trace included, to the unhandled rejections; besides, it leaves
  the state as the callback left it when it threw, and it hands no error to the loop. A
  callback that throws \<open>e\<close> when it resumes adds \<open>e\<close> to the unhandled rejections then.
  So when a dispatch returns, the unhandled rejections it has added are the errors of
  the calls that threw before suspending, one for each call, in the order of the calls.
\<close>

theorem throw_ends_as_rejection:
  "rejections (async_call env h ev w) =
     rejections w @ (case throws env ev h of None \<Rightarrow> [] | Some e \<Rightarrow> [e]) \<and>
   (fst (call env h ev w) = Thrown e \<longrightarrow>
      throws env ev h = Some e \<and>
      async_call env h ev w = (snd (call env h ev w))\<lparr>rejections := rejections w @ [e]\<rparr>) \<and>
   (k < length (tasks w) \<and> tasks w ! k = (ev, p) \<longrightarrow>
      rejections (run_task k w) =
        rejections w @ (case thrown p of None \<Rightarrow> [] | Some e \<Rightarrow> [e])) \<and>
   (dispatch n env d w = Some w' \<longrightarrow>
      rejections w' = rejections w @
        List.map_filter (\<lambda>x. throws env (inv_event x) (inv_handle x)) (scheduled w w'))"
proof -
  have "throws env ev h = Some e \<and>
      async_call env h ev w = (snd (call env h ev w))\<lparr>rejections := rejections w @ [e]\<rparr>"
    if t: "fst (call env h ev w) = Thrown e"
  proof -
    from t call_outcome [of env h ev w] have "throws env ev h = Some e"
      by (cases "throws env ev h") simp_all
    moreover from t have "async_call env h ev w =
        (snd (call env h ev w))\<lparr>rejections := rejections w @ [e]\<rparr>"
      by (simp add: async_call_eq)
    ultimately show ?thesis by simp
  qed
  then show ?thesis
    using async_call_rejections [of env h ev w] run_task_rejections [of k w ev p]
      dispatch_rejections [of n env d w w']
    by blast
qed

theorem throw_ends_as_rejection_witness:
  "dispatch 3 rejecting_env 1 rejecting \<noteq> None \<and>
   map inv_handle (scheduled rejecting (the (dispatch 3 rejecting_env 1 rejecting))) =
     [Fn 0, Fn 1] \<and>
   fst (call rejecting_env (Fn 0) (event_of 1 rejecting) rejecting) = Thrown ''e1'' \<and>
   rejections rejecting = [] \<and>
   rejections (async_call rejecting_env (Fn 0) (event_of 1 rejecting) rejecting) = [''e1''] \<and>
   rejections (the (dispatch 3 rejecting_env 1 rejecting)) = [''e1''] \<and>
   tasks (the (dispatch 3 rejecting_env 1 rejecting)) =
     [(event_of 1 rejecting, Throw ''e2'')] \<and>
   rejections (run_task 0 (the (dispatch 3 rejecting_env 1 rejecting))) = [''e1'', ''e2'']"
proof -
  let ?w' = "the (dispatch 3 rejecting_env 1 rejecting)"
  let ?ev = "event_of 1 rejecting"
  have ne: "dispatch 3 rejecting_env 1 rejecting \<noteq> None" by code_simp
  then have run: "dispatch 3 rejecting_env 1 rejecting = Some ?w'" by simp
  have t: "fst (call rejecting_env (Fn 0) ?ev rejecting) = Thrown ''e1''" by code_simp
  have k: "0 < length (tasks ?w')" "tasks ?w' ! 0 = (?ev, Throw ''e2'')" by code_simp+
  have facts: "map inv_handle (scheduled rejecting ?w') = [Fn 0, Fn 1]"
    "rejections rejecting = []"
    "tasks ?w' = [(?ev, Throw ''e2'')]"
    "List.map_filter (\<lambda>x. throws rejecting_env (inv_event x) (inv_handle x))
       (scheduled rejecting ?w') = [''e1'']"
    "throws rejecting_env ?ev (Fn 0) = Some ''e1''"
    by code_simp+
  from throw_ends_as_rejection [where env = rejecting_env and h = "Fn 0" and ev = ?ev
      and w = rejecting and e = "''e1''" and n = 3 and d = 1 and w' = ?w' and k = 0] run t facts
  have a: "rejections (async_call rejecting_env (Fn 0) ?ev rejecting) = [''e1'']"
    "rejections ?w' = [''e1'']"
    by simp_all
  from throw_ends_as_rejection [where env = rejecting_env and w = ?w' and k = 0 and ev = ?ev
      and p = "Throw ''e2''"] k a
  have "rejections (run_task 0 ?w') = [''e1'', ''e2'']" by simp
  with ne t facts a show ?thesis by simp
qed


subsection \<open>Which callbacks a dispatch calls\<close>

lemma exec_no_stop: "\<not> stops p \<Longrightarrow> flags (snd (exec ev p w)) = flags w"
proof (induction p arbitrary: w)
  case (Do c p)
  then show ?case by (cases c) (simp_all add: on_def off_def clear_def once_def Let_def)
qed simp_all

lemma call_no_stop: "\<not> stops_handle env ev h \<Longrightarrow> flags (snd (call env h ev w)) = flags w"
  by (induction h arbitrary: w)
    (simp_all add: call_Wrapper exec_no_stop resolve_def del: call.simps(2))

lemma async_call_no_stop:
  "\<not> stops_handle env ev h \<Longrightarrow> flags (async_call env h ev (note_call i h ev w)) = flags w"
  by (simp add: async_call_flags call_no_stop)

lemma later_Some:
  "later es es' \<Longrightarrow> j < length es \<Longrightarrow> es' ! j = Some h \<Longrightarrow> es ! j = Some h"
  by (auto simp: later_def)

lemma dispatch_loop_visits:
  "dispatch_loop n env ev i w = Some w' \<Longrightarrow> \<not> flags w ! stopPropagation ev \<Longrightarrow>
   \<forall>x \<in> set (scheduled w w'). inv_pos x < j \<longrightarrow> \<not> stops_handle env ev (inv_handle x) \<Longrightarrow>
   i \<le> j \<Longrightarrow> slot j h w' \<Longrightarrow>
   \<exists>x \<in> set (scheduled w w'). inv_pos x = j \<and> inv_handle x = h"
proof (induction rule: dispatch_loop_induct)
  case (finished i w)
  then show ?case by (simp add: slot_def)
next
  case (skip m i w w')
  have "j \<noteq> i"
  proof
    assume "j = i"
    with later_None [OF dispatch_loop_later [OF skip.hyps(3)] skip.hyps(1,2)] skip.prems(4)
    show False by (simp add: slot_def)
  qed
  with skip.prems(3) have "Suc i \<le> j" by simp
  from skip.IH [OF skip.prems(1,2) this skip.prems(4)] show ?case .
next
  case (stopped i w g)
  show ?case
  proof (cases "j = i")
    case True
    have "later (callbacks w) (callbacks (async_call env g ev (note_call i g ev w)))"
      by (rule later_async_call)
    from later_Some [OF this stopped.hyps(1)] stopped.prems(4) True
    have "callbacks w ! i = Some h" by (simp add: slot_def)
    with stopped.hyps(2) True show ?thesis by simp
  next
    case False
    with stopped.prems(2,3) have "\<not> stops_handle env ev g" by simp
    from async_call_no_stop [OF this, of i w] stopped.hyps(3) stopped.prems(1)
    show ?thesis by simp
  qed
next
  case (continue m i w g w')
  let ?w = "async_call env g ev (note_call i g ev w)"
  note sched = scheduled_continue [OF continue.hyps(4)]
  show ?case
  proof (cases "j = i")
    case True
    have "later (callbacks w) (callbacks w')"
      by (rule later_trans [OF later_async_call dispatch_loop_later [OF continue.hyps(4)]])
    from later_Some [OF this continue.hyps(1)] continue.prems(4) True
    have "callbacks w ! i = Some h" by (simp add: slot_def)
    with continue.hyps(2) True show ?thesis by (simp add: sched)
  next
    case False
    with continue.prems(3) have le: "Suc i \<le> j" by simp
    from continue.prems(2)
    have "\<forall>x \<in> set (scheduled ?w w'). inv_pos x < j \<longrightarrow> \<not> stops_handle env ev (inv_handle x)"
      by (simp add: sched)
    from continue.IH [OF continue.hyps(3) this le continue.prems(4)] show ?thesis
      by (auto simp: sched)
  qed
qed

lemma dispatch_visits:
  assumes "dispatch n env d w = Some w'"
    and "\<forall>x \<in> set (scheduled w w').
      inv_pos x < j \<longrightarrow> \<not> stops_handle env (inv_event x) (inv_handle x)"
    and "slot j h w'"
  shows "\<exists>x \<in> set (scheduled w w'). inv_pos x = j \<and> inv_handle x = h"
proof -
  let ?w = "w\<lparr>last_val := Some d, flags := flags w @ [False]\<rparr>"
  from assms(1) have run: "dispatch_loop n env (event_of d w) 0 ?w = Some w'"
    by (simp add: dispatch_loop_of)
  have flag: "\<not> flags ?w ! stopPropagation (event_of d w)" by simp
  have "\<forall>x \<in> set (scheduled ?w w').
      inv_pos x < j \<longrightarrow> \<not> stops_handle env (event_of d w) (inv_handle x)"
  proof (intro ballI impI)
    fix x
    assume x: "x \<in> set (scheduled ?w w')" and less: "inv_pos x < j"
    with dispatch_loop_scheduled [OF run] have "inv_event x = event_of d w" by blast
    with assms(2) x less show "\<not> stops_handle env (event_of d w) (inv_handle x)"
      by (auto simp: dispatch_scheduled [OF assms(1)])
  qed
  from dispatch_loop_visits [OF run flag this le0 assms(3)] show ?thesis
    by (simp add: dispatch_scheduled [OF assms(1)])
qed

text \<open>A call that registers nothing leaves the registry at its length.\<close>

lemma length_set_delete [simp]: "length (set_delete h es) = length es"
  by (simp add: set_delete_def)

lemma run_cmd_length:
  "\<not> registers (Do c p) \<Longrightarrow> length (callbacks (run_cmd ev c w)) = length (callbacks w)"
  by (cases c) (simp_all add: off_def clear_def set_clear_def)

lemma registers_Do: "\<not> registers (Do c p) \<Longrightarrow> \<not> registers p"
  by (cases c) simp_all

lemma exec_length:
  "\<not> registers p \<Longrightarrow> length (callbacks (snd (exec ev p w))) = length (callbacks w)"
proof (induction p arbitrary: w)
  case (Do c p)
  from Do.IH [OF registers_Do [OF Do.prems], of "run_cmd ev c w"] run_cmd_length [OF Do.prems]
  show ?case by simp
qed simp_all

lemma call_length:
  "\<not> registers_handle env ev h \<Longrightarrow>
   length (callbacks (snd (call env h ev w))) = length (callbacks w)"
  by (induction h arbitrary: w)
    (simp_all add: call_Wrapper exec_length resolve_def off_def del: call.simps(2))

lemma later_same_length:
  "later es es' \<Longrightarrow> length es' = length es \<Longrightarrow> Some h \<in> set es' \<Longrightarrow> Some h \<in> set es"
  by (auto simp: later_def in_set_conv_nth) (metis option.distinct(1))

lemma dispatch_loop_returns:
  assumes "\<forall>h. Some h \<in> set (callbacks w) \<longrightarrow> \<not> registers_handle env ev h"
    and "length (callbacks w) - i < n"
  shows "\<exists>w'. dispatch_loop n env ev i w = Some w'"
  using assms
proof (induction n arbitrary: i w)
  case 0
  then show ?case by simp
next
  case (Suc n)
  show ?case
  proof (cases "length (callbacks w) \<le> i")
    case True
    then show ?thesis by simp
  next
    case False
    then have i: "i < length (callbacks w)" by simp
    with Suc.prems(2) have less: "length (callbacks w) - Suc i < n" by simp
    show ?thesis
    proof (cases "callbacks w ! i")
      case None
      from Suc.IH [OF Suc.prems(1) less] None False show ?thesis by simp
    next
      case (Some g)
      let ?w = "async_call env g ev (note_call i g ev w)"
      from i Some have "Some g \<in> set (callbacks w)" by (metis nth_mem)
      with Suc.prems(1) have "\<not> registers_handle env ev g" by simp
      from call_length [OF this, of "note_call i g ev w"]
      have len: "length (callbacks ?w) = length (callbacks w)"
        by (simp add: async_call_callbacks)
      have "\<forall>h. Some h \<in> set (callbacks ?w) \<longrightarrow> \<not> registers_handle env ev h"
        using later_same_length [OF later_async_call len] Suc.prems(1) by blast
      from Suc.IH [OF this, of "Suc i"] less len
      obtain w' where "dispatch_loop n env ev (Suc i) ?w = Some w'" by auto
      with False Some show ?thesis by (simp add: Let_def)
    qed
  qed
qed

lemma dispatch_returns:
  assumes "\<forall>h \<in> set (members (callbacks w)). \<not> registers_handle env (event_of d w) h"
    and "length (callbacks w) < n"
  shows "\<exists>w'. dispatch n env d w = Some w'"
  using assms
    dispatch_loop_returns [of "w\<lparr>last_val := Some d, flags := flags w @ [False]\<rparr>" env
      "event_of d w" 0 n]
  by (simp add: dispatch_loop_of)

text \<open>
  A callback that registers a callback can keep a dispatch from returning: the
  iterator never gets to the end of a registry that grows with every call.
\<close>

lemma restless_loop:
  "callbacks w = replicate i None @ [Some (Fn 0)] \<Longrightarrow> \<not> flags w ! stopPropagation ev \<Longrightarrow>
   dispatch_loop n restless_env ev i w = None"
proof (induction n arbitrary: i w)
  case 0
  show ?case by simp
next
  case (Suc n)
  let ?w = "async_call restless_env (Fn 0) ev (note_call i (Fn 0) ev w)"
  from Suc.prems(1) have at: "i < length (callbacks w)" "callbacks w ! i = Some (Fn 0)"
    by (simp_all add: nth_append)
  have "callbacks ?w = set_add (Fn 0) (set_delete (Fn 0) (callbacks w))"
    by (simp add: async_call_callbacks restless_env_def on_def off_def)
  with Suc.prems(1) have "callbacks ?w = replicate i None @ [None, Some (Fn 0)]"
    by (simp add: set_add_def set_delete_def)
  then have cb: "callbacks ?w = replicate (Suc i) None @ [Some (Fn 0)]"
    by (simp add: replicate_append_same)
  have "\<not> stops_handle restless_env ev (Fn 0)" by (simp add: restless_env_def)
  from async_call_no_stop [OF this, of i w] Suc.prems(2)
  have fl: "\<not> flags ?w ! stopPropagation ev" by simp
  from Suc.IH [OF cb fl] at fl show ?case by (simp add: Let_def)
qed

lemma dispatch_may_not_return: "dispatch n restless_env d restless = None"
proof -
  let ?w = "restless\<lparr>last_val := Some d, flags := flags restless @ [False]\<rparr>"
  have "callbacks ?w = replicate 0 None @ [Some (Fn 0)]"
    by (simp add: restless_def on_def start_def constructor_def set_add_def)
  moreover have "\<not> flags ?w ! stopPropagation (event_of d restless)" by simp
  ultimately show ?thesis unfolding dispatch_loop_of by (rule restless_loop)
qed

text \<open>
  C4, as amended. An error that a callback throws does not reach the caller of
  \<^verbatim>\<open>dispatch\<close> and does not end the iteration. Whatever the callbacks throw:
  \<^item> a dispatch returns when no registered callback registers a callback before it
    returns, throws or suspends (the bound on the steps of the iterator is more than the
    length of the registry);
  \<^item> when a dispatch returns and no callback that it has called has called
    \<^verbatim>\<open>stopPropagation\<close> before returning, throwing or suspending, every callback that is
    registered then has been called in that dispatch, at its position.
\<close>

theorem throw_does_not_stop_dispatch:
  "((\<forall>h \<in> set (members (callbacks w)). \<not> registers_handle env (event_of d w) h) \<and>
    length (callbacks w) < n \<longrightarrow>
      (\<exists>w'. dispatch n env d w = Some w')) \<and>
   (dispatch n env d w = Some w' \<and>
    (\<forall>x \<in> set (scheduled w w'). \<not> stops_handle env (inv_event x) (inv_handle x)) \<longrightarrow>
      (\<forall>j h. slot j h w' \<longrightarrow>
         (\<exists>x \<in> set (scheduled w w'). inv_pos x = j \<and> inv_handle x = h)))"
proof -
  have "\<exists>x \<in> set (scheduled w w'). inv_pos x = j \<and> inv_handle x = h"
    if "dispatch n env d w = Some w'" and "slot j h w'"
      and "\<forall>x \<in> set (scheduled w w'). \<not> stops_handle env (inv_event x) (inv_handle x)"
    for j h
    using dispatch_visits [OF that(1) _ that(2)] that(3) by blast
  with dispatch_returns [of w env d n] show ?thesis by blast
qed

theorem throw_does_not_stop_dispatch_witness:
  "list_all (\<lambda>h. \<not> registers_handle failing_env (event_of ''x'' failing) h)
     (members (callbacks failing)) \<and>
   length (callbacks failing) < 6 \<and>
   dispatch 6 failing_env ''x'' failing \<noteq> None \<and>
   throws failing_env (event_of ''x'' failing) (Fn 2) = Some ''Error: behind me'' \<and>
   list_all (\<lambda>x. \<not> stops_handle failing_env (inv_event x) (inv_handle x))
     (scheduled failing (the (dispatch 6 failing_env ''x'' failing))) \<and>
   members (callbacks (the (dispatch 6 failing_env ''x'' failing))) =
     [Fn 0, Fn 1, Fn 2, Fn 3, Fn 4] \<and>
   slot 3 (Fn 3) (the (dispatch 6 failing_env ''x'' failing)) \<and>
   (3, Fn 3) \<in> (\<lambda>x. (inv_pos x, inv_handle x)) `
     set (scheduled failing (the (dispatch 6 failing_env ''x'' failing))) \<and>
   slot 4 (Fn 4) (the (dispatch 6 failing_env ''x'' failing)) \<and>
   (4, Fn 4) \<in> (\<lambda>x. (inv_pos x, inv_handle x)) `
     set (scheduled failing (the (dispatch 6 failing_env ''x'' failing))) \<and>
   console (the (dispatch 6 failing_env ''x'' failing)) =
     [''callback 1'', ''callback 2'', ''callback 3'', ''callback 4''] \<and>
   rejections (the (dispatch 6 failing_env ''x'' failing)) = [''Error: behind me'']"
proof -
  let ?w' = "the (dispatch 6 failing_env ''x'' failing)"
  have quiet: "\<forall>h \<in> set (members (callbacks failing)).
      \<not> registers_handle failing_env (event_of ''x'' failing) h"
    unfolding list_all_iff [symmetric] by code_simp
  have len: "length (callbacks failing) < 6" by code_simp
  from throw_does_not_stop_dispatch
    [where w = failing and env = failing_env and d = "''x''" and n = 6] quiet len
  have ne: "dispatch 6 failing_env ''x'' failing \<noteq> None" by auto
  then have run: "dispatch 6 failing_env ''x'' failing = Some ?w'" by simp
  have calm: "\<forall>x \<in> set (scheduled failing ?w').
      \<not> stops_handle failing_env (inv_event x) (inv_handle x)"
    unfolding list_all_iff [symmetric] by code_simp
  have s: "slot 3 (Fn 3) ?w'" "slot 4 (Fn 4) ?w'" by code_simp+
  have facts: "throws failing_env (event_of ''x'' failing) (Fn 2) = Some ''Error: behind me''"
    "members (callbacks ?w') = [Fn 0, Fn 1, Fn 2, Fn 3, Fn 4]"
    "console ?w' = [''callback 1'', ''callback 2'', ''callback 3'', ''callback 4'']"
    "rejections ?w' = [''Error: behind me'']"
    by code_simp+
  from throw_does_not_stop_dispatch
    [where w = failing and env = failing_env and d = "''x''" and n = 6 and w' = ?w']
    run calm
  have all: "\<forall>j h. slot j h ?w' \<longrightarrow>
      (\<exists>x \<in> set (scheduled failing ?w'). inv_pos x = j \<and> inv_handle x = h)"
    by blast
  from all s(1) have a: "(3, Fn 3) \<in> (\<lambda>x. (inv_pos x, inv_handle x)) `
      set (scheduled failing ?w')" by force
  from all s(2) have b: "(4, Fn 4) \<in> (\<lambda>x. (inv_pos x, inv_handle x)) `
      set (scheduled failing ?w')" by force
  from quiet calm have "list_all (\<lambda>h. \<not> registers_handle failing_env (event_of ''x'' failing) h)
      (members (callbacks failing))"
    "list_all (\<lambda>x. \<not> stops_handle failing_env (inv_event x) (inv_handle x))
      (scheduled failing ?w')"
    by (simp_all add: list_all_iff)
  with len ne s a b facts show ?thesis by simp
qed

text \<open>
  C4 as stated fails: the first callback throws, the second stops the propagation, and
  the third, which is registered before and after the dispatch, is not called.
\<close>

theorem throw_beside_stopPropagation:
  "members (callbacks blocked) = [Fn 0, Fn 1, Fn 2] \<and>
   throws blocked_env (event_of 1 blocked) (Fn 0) = Some ''first throws'' \<and>
   stops_handle blocked_env (event_of 1 blocked) (Fn 1) \<and>
   dispatch 4 blocked_env 1 blocked \<noteq> None \<and>
   map inv_handle (scheduled blocked (the (dispatch 4 blocked_env 1 blocked))) =
     [Fn 0, Fn 1] \<and>
   members (callbacks (the (dispatch 4 blocked_env 1 blocked))) = [Fn 0, Fn 1, Fn 2] \<and>
   console (the (dispatch 4 blocked_env 1 blocked)) = []"
  by code_simp


subsection \<open>Several dispatches\<close>



subsection \<open>The promise of next\<close>









subsection \<open>The wrapper of once\<close>

text \<open>
  C2, as amended. \<^verbatim>\<open>once\<close> registers the wrapper. A call of the wrapper first calls the
  callback; when that call returns, be it because the callback is done or because it
  has suspended, the wrapper removes itself from the registry. It awaits nothing: what
  the callback left suspended is still suspended after the removal.
\<close>

theorem once_wrapper_removes_itself_when_call_returns:
  "callbacks (once callback w0) = set_add (Wrapper (closures w0) callback) (callbacks w0) \<and>
   (call env callback ev w = (Returned, w1) \<longrightarrow>
      call env (Wrapper k callback) ev w = (Returned, off (Wrapper k callback) w1) \<and>
      Some (Wrapper k callback) \<notin> set (callbacks (off (Wrapper k callback) w1)) \<and>
      tasks (off (Wrapper k callback) w1) = tasks w1 \<and>
      console (off (Wrapper k callback) w1) = console w1)"
  by (auto simp: once_def on_def off_def Let_def set_delete_def)

theorem once_wrapper_removes_itself_when_call_returns_witness:
  "callbacks single = [Some (Wrapper 0 (Fn 0))] \<and>
   fst (call suspending_env (Fn 0) single_event single) = Returned \<and>
   tasks (snd (call suspending_env (Fn 0) single_event single)) =
     [(single_event, Do (Log ''done'') Return)] \<and>
   fst (call suspending_env (Wrapper 0 (Fn 0)) single_event single) = Returned \<and>
   callbacks (snd (call suspending_env (Wrapper 0 (Fn 0)) single_event single)) = [None] \<and>
   tasks (snd (call suspending_env (Wrapper 0 (Fn 0)) single_event single)) =
     [(single_event, Do (Log ''done'') Return)] \<and>
   console (snd (call suspending_env (Wrapper 0 (Fn 0)) single_event single)) = [''started'']"
proof -
  let ?w1 = "snd (call suspending_env (Fn 0) single_event single)"
  have r: "fst (call suspending_env (Fn 0) single_event single) = Returned" by code_simp
  then have c: "call suspending_env (Fn 0) single_event single = (Returned, ?w1)"
    by (metis prod.collapse)
  have f: "callbacks single = [Some (Wrapper 0 (Fn 0))]"
    "tasks ?w1 = [(single_event, Do (Log ''done'') Return)]"
    "console ?w1 = [''started'']"
    "callbacks (off (Wrapper 0 (Fn 0)) ?w1) = [None]"
    by code_simp+
  from once_wrapper_removes_itself_when_call_returns
    [of "Fn 0" "start None" suspending_env single_event single ?w1 0] c
  have "call suspending_env (Wrapper 0 (Fn 0)) single_event single =
      (Returned, off (Wrapper 0 (Fn 0)) ?w1)"
    "tasks (off (Wrapper 0 (Fn 0)) ?w1) = tasks ?w1"
    "console (off (Wrapper 0 (Fn 0)) ?w1) = console ?w1"
    by blast+
  with r f show ?thesis by simp
qed

text \<open>
  C2 as stated fails: for a callback that suspends, the wrapper is out of the registry
  when the dispatch returns, while the callback has not run to its end; its last line
  is printed only when it resumes.
\<close>

theorem once_wrapper_does_not_await:
  "callbacks single = [Some (Wrapper 0 (Fn 0))] \<and>
   dispatch 2 suspending_env 1 single \<noteq> None \<and>
   callbacks (the (dispatch 2 suspending_env 1 single)) = [None] \<and>
   console (the (dispatch 2 suspending_env 1 single)) = [''started''] \<and>
   tasks (the (dispatch 2 suspending_env 1 single)) =
     [(single_event, Do (Log ''done'') Return)] \<and>
   console (run_task 0 (the (dispatch 2 suspending_env 1 single))) = [''started'', ''done'']"
  by code_simp


subsection \<open>What happens after a suspension\<close>

lemma list_update_same:
  "length xs = length ys \<Longrightarrow> xs ! a = ys ! a \<Longrightarrow> xs[k := v] ! a = ys[k := v] ! a"
  by (cases "k < length xs") (simp_all add: nth_list_update list_update_beyond)

lemma agree_run_cmd:
  "agree A w1 w2 \<Longrightarrow> agree A (run_cmd ev c w1) (run_cmd ev c w2)"
proof (cases c)
  case StopPropagation
  assume "agree A w1 w2"
  then show ?thesis
    using list_update_same [of "flags w1" "flags w2" _ "stopPropagation ev" True]
    by (simp add: agree_def StopPropagation)
qed (simp_all add: agree_def on_def off_def clear_def once_def Let_def)

lemma agree_exec:
  "sync_part p1 = sync_part p2 \<Longrightarrow> agree A w1 w2 \<Longrightarrow>
   fst (exec ev p1 w1) = fst (exec ev p2 w2) \<and>
   agree A (snd (exec ev p1 w1)) (snd (exec ev p2 w2))"
proof (induction p1 arbitrary: p2 w1 w2)
  case Return
  then show ?case by (cases p2) simp_all
next
  case (Throw e)
  then show ?case by (cases p2) simp_all
next
  case (Do c p1)
  then obtain q where p2: "p2 = Do c q" and q: "sync_part p1 = sync_part q"
    by (cases p2) simp_all
  from Do.IH [OF q agree_run_cmd [OF Do.prems(2)]] show ?case by (simp add: p2)
next
  case (Await p1)
  then obtain q where "p2 = Await q" by (cases p2) simp_all
  with Await.prems(2) show ?case by (simp add: agree_def)
qed

lemma agree_off: "agree A w1 w2 \<Longrightarrow> agree A (off h w1) (off h w2)"
  by (simp add: agree_def off_def)

lemma agree_call:
  assumes "\<forall>f ev. sync_part (env1 f ev) = sync_part (env2 f ev)"
  shows "agree A w1 w2 \<Longrightarrow>
   fst (call env1 h ev w1) = fst (call env2 h ev w2) \<and>
   agree A (snd (call env1 h ev w1)) (snd (call env2 h ev w2))"
proof (induction h arbitrary: w1 w2)
  case (Fn f)
  with assms agree_exec [of "env1 f ev" "env2 f ev" A w1 w2 ev] show ?case by simp
next
  case (Wrapper k h)
  from Wrapper.IH [OF Wrapper.prems] show ?case
    by (simp add: call_Wrapper agree_off del: call.simps(2))
next
  case (Resolver p)
  then show ?case by (simp add: agree_def resolve_def)
qed

lemma agree_step:
  assumes "\<forall>f ev. sync_part (env1 f ev) = sync_part (env2 f ev)" and "agree A w1 w2"
  shows "agree A (async_call env1 h ev (note_call i h ev w1))
    (async_call env2 h ev (note_call i h ev w2))"
proof -
  from assms(2) have n: "agree A (note_call i h ev w1) (note_call i h ev w2)"
    by (simp add: agree_def note_call_def)
  then have "rejections (note_call i h ev w1) = rejections (note_call i h ev w2)"
    by (simp add: agree_def)
  with agree_call [OF assms(1) n, of h ev] show ?thesis
    by (simp add: async_call_eq agree_def split: outcome.split)
qed

lemma agree_dispatch_loop:
  assumes "\<forall>f ev. sync_part (env1 f ev) = sync_part (env2 f ev)" and "stopPropagation ev \<notin> A"
  shows "agree A w1 w2 \<Longrightarrow>
    rel_option (agree A) (dispatch_loop n env1 ev i w1) (dispatch_loop n env2 ev i w2)"
proof (induction n arbitrary: i w1 w2)
  case 0
  then show ?case by simp
next
  case (Suc n)
  from Suc.prems have cb: "callbacks w1 = callbacks w2" by (simp add: agree_def)
  show ?case
  proof (cases "length (callbacks w2) \<le> i")
    case True
    with Suc.prems cb show ?thesis by simp
  next
    case False
    show ?thesis
    proof (cases "callbacks w2 ! i")
      case None
      with False cb Suc.IH [OF Suc.prems] show ?thesis by simp
    next
      case (Some h)
      let ?w1 = "async_call env1 h ev (note_call i h ev w1)"
      let ?w2 = "async_call env2 h ev (note_call i h ev w2)"
      have step: "agree A ?w1 ?w2" by (rule agree_step [OF assms(1) Suc.prems])
      with assms(2) have "flags ?w1 ! stopPropagation ev = flags ?w2 ! stopPropagation ev"
        by (simp add: agree_def)
      with False cb Some step Suc.IH [OF step] show ?thesis by (simp add: Let_def)
    qed
  qed
qed

lemma agree_dispatch:
  assumes "\<forall>f ev. sync_part (env1 f ev) = sync_part (env2 f ev)" and "agree A w1 w2"
    and "length (flags w1) \<notin> A"
  shows "rel_option (agree A) (dispatch n env1 d w1) (dispatch n env2 d w2)"
proof -
  from assms(2) have eq: "last_val w1 = last_val w2" "length (flags w1) = length (flags w2)"
    by (simp_all add: agree_def)
  from assms(2) have "agree A (w1\<lparr>last_val := Some d, flags := flags w1 @ [False]\<rparr>)
    (w2\<lparr>last_val := Some d, flags := flags w2 @ [False]\<rparr>)"
    by (auto simp: agree_def nth_append)
  from agree_dispatch_loop [OF assms(1) _ this, of _ n 0] assms(3) eq
  show ?thesis by (simp add: dispatch_def Let_def)
qed

lemma agree_observe:
  assumes "rel_option (agree A) r1 r2"
  shows "map_option invocations r1 = map_option invocations r2"
    and "map_option callbacks r1 = map_option callbacks r2"
    and "map_option console r1 = map_option console r2"
  using assms by (cases r1; cases r2; simp add: agree_def)+

lemma agree_flags:
  assumes "rel_option (agree {}) r1 r2"
  shows "map_option flags r1 = map_option flags r2"
  using assms by (cases r1; cases r2) (auto simp: agree_def intro: nth_equalityI)

lemma run_task_stopPropagation:
  "run_task (length ts) (w\<lparr>tasks := ts @ (ev, Do StopPropagation Return) # ts'\<rparr>) =
     w\<lparr>tasks := ts @ ts', flags := (flags w)[stopPropagation ev := True]\<rparr>"
  by (simp add: run_task_def)

text \<open>
  C6, as amended. A callback that has not called \<^verbatim>\<open>stopPropagation\<close> when it returns,
  throws or suspends leaves the flag of the dispatch as it is, and the iteration goes on
  at the next position. What the callbacks do after their first suspension points, a
  call of \<^verbatim>\<open>stopPropagation\<close> in particular, has no effect on the dispatch:
  \<^item> a callback that is registered when the dispatch returns has been called in it, at
    its position, unless a callback called at a position ahead of it called
    \<^verbatim>\<open>stopPropagation\<close> before returning, throwing or suspending;
  \<^item> two programs whose callbacks agree up to their first suspension points call the
    same callbacks, at the same positions, and leave the same registry and the same
    flags when the dispatch returns.

  When a suspended callback resumes and calls \<^verbatim>\<open>stopPropagation\<close>, the flag of its own,
  finished dispatch is set and nothing else changes; and a flag of a finished dispatch
  has no effect on any later dispatch.
\<close>

theorem late_stopPropagation_has_no_effect:
  "(\<not> stops_handle env ev g \<longrightarrow> flags (async_call env g ev w) = flags w) \<and>
   (slot i g w \<and> \<not> stops_handle env ev g \<and> \<not> flags w ! stopPropagation ev \<longrightarrow>
      dispatch_loop (Suc n) env ev i w =
        dispatch_loop n env ev (Suc i) (async_call env g ev (note_call i g ev w))) \<and>
   (dispatch n env d w = Some w' \<and> slot j h w' \<and>
    (\<forall>y \<in> set (scheduled w w').
       inv_pos y < j \<longrightarrow> \<not> stops_handle env (inv_event y) (inv_handle y)) \<longrightarrow>
      (\<exists>x \<in> set (scheduled w w'). inv_pos x = j \<and> inv_handle x = h)) \<and>
   ((\<forall>f ev. sync_part (env1 f ev) = sync_part (env2 f ev)) \<longrightarrow>
      map_option invocations (dispatch n env1 d w) =
        map_option invocations (dispatch n env2 d w) \<and>
      map_option callbacks (dispatch n env1 d w) = map_option callbacks (dispatch n env2 d w) \<and>
      map_option flags (dispatch n env1 d w) = map_option flags (dispatch n env2 d w)) \<and>
   run_task (length ts) (w\<lparr>tasks := ts @ (ev, Do StopPropagation Return) # ts'\<rparr>) =
     w\<lparr>tasks := ts @ ts', flags := (flags w)[stopPropagation ev := True]\<rparr> \<and>
   (a < length (flags w) \<longrightarrow>
      map_option invocations (dispatch n env d (w\<lparr>flags := (flags w)[a := True]\<rparr>)) =
        map_option invocations (dispatch n env d w) \<and>
      map_option callbacks (dispatch n env d (w\<lparr>flags := (flags w)[a := True]\<rparr>)) =
        map_option callbacks (dispatch n env d w))"
proof -
  have refl: "agree {} w w" by (simp add: agree_def)
  have 0: "flags (async_call env g ev w) = flags w" if "\<not> stops_handle env ev g" for w :: "'a world"
    using that by (simp add: async_call_flags call_no_stop)
  have 1: "dispatch_loop (Suc n) env ev i w =
        dispatch_loop n env ev (Suc i) (async_call env g ev (note_call i g ev w))"
    if "slot i g w" "\<not> stops_handle env ev g" "\<not> flags w ! stopPropagation ev"
    using that 0 [OF that(2), of "note_call i g ev w"] by (simp add: slot_def Let_def)
  have 2: "\<exists>x \<in> set (scheduled w w'). inv_pos x = j \<and> inv_handle x = h"
    if "dispatch n env d w = Some w'" "slot j h w'"
      "\<forall>y \<in> set (scheduled w w').
         inv_pos y < j \<longrightarrow> \<not> stops_handle env (inv_event y) (inv_handle y)"
    using dispatch_visits [OF that(1,3,2)] .
  have 3: "map_option invocations (dispatch n env1 d w) =
        map_option invocations (dispatch n env2 d w) \<and>
      map_option callbacks (dispatch n env1 d w) = map_option callbacks (dispatch n env2 d w) \<and>
      map_option flags (dispatch n env1 d w) = map_option flags (dispatch n env2 d w)"
    if "\<forall>f ev. sync_part (env1 f ev) = sync_part (env2 f ev)"
    using agree_dispatch [OF that refl, of n d] by (simp add: agree_observe agree_flags)
  have 4: "map_option invocations (dispatch n env d (w\<lparr>flags := (flags w)[a := True]\<rparr>)) =
        map_option invocations (dispatch n env d w) \<and>
      map_option callbacks (dispatch n env d (w\<lparr>flags := (flags w)[a := True]\<rparr>)) =
        map_option callbacks (dispatch n env d w)"
    if a: "a < length (flags w)"
  proof -
    have "agree {a} (w\<lparr>flags := (flags w)[a := True]\<rparr>) w"
      by (simp add: agree_def)
    moreover from a have "length (flags (w\<lparr>flags := (flags w)[a := True]\<rparr>)) \<notin> {a}"
      by simp
    ultimately have "rel_option (agree {a})
        (dispatch n env d (w\<lparr>flags := (flags w)[a := True]\<rparr>)) (dispatch n env d w)"
      by (intro agree_dispatch) simp_all
    then show ?thesis by (simp add: agree_observe)
  qed
  from 0 [where w = w] 1 2 3 4
    run_task_stopPropagation [where ts = ts and w = w and ev = ev and ts' = ts']
  show ?thesis by blast
qed

theorem late_stopPropagation_has_no_effect_witness:
  "(\<forall>f ev. sync_part (late_env f ev) = sync_part (patient_env f ev)) \<and>
   dispatch 3 late_env ''first'' late = Some late_returned \<and>
   map_option invocations (dispatch 3 late_env ''first'' late) =
     map_option invocations (dispatch 3 patient_env ''first'' late) \<and>
   map inv_handle (scheduled late late_returned) = [Fn 0, Fn 1] \<and>
   \<not> stops_handle late_env (event_of ''first'' late) (Fn 0) \<and>
   slot 1 (Fn 1) late_returned \<and>
   (1, Fn 1) \<in> (\<lambda>x. (inv_pos x, inv_handle x)) ` set (scheduled late late_returned) \<and>
   flags late_returned = [False] \<and>
   tasks late_returned = [(event_of ''first'' late, Do StopPropagation Return)] \<and>
   late_resumed = late_returned\<lparr>tasks := [], flags := (flags late_returned)[0 := True]\<rparr> \<and>
   flags late_resumed = [True] \<and>
   map_option invocations (dispatch 3 late_env ''second'' late_resumed) =
     map_option invocations (dispatch 3 late_env ''second'' (late_returned\<lparr>tasks := []\<rparr>)) \<and>
   dispatch 3 late_env ''second'' late_resumed \<noteq> None \<and>
   map inv_handle (scheduled late_resumed (the (dispatch 3 late_env ''second'' late_resumed))) =
     [Fn 0, Fn 1]"
proof -
  let ?ev = "event_of ''first'' late"
  let ?w = "late_returned\<lparr>tasks := []\<rparr>"
  have s: "\<forall>f ev. sync_part (late_env f ev) = sync_part (patient_env f ev)"
    by (simp add: late_env_def patient_env_def)
  have r: "dispatch 3 late_env ''first'' late = Some late_returned" by code_simp
  have h: "\<not> stops_handle late_env ?ev (Fn 0)" by code_simp
  have calm: "\<forall>y \<in> set (scheduled late late_returned).
      inv_pos y < 1 \<longrightarrow> \<not> stops_handle late_env (inv_event y) (inv_handle y)"
    unfolding list_all_iff [symmetric] by code_simp
  have sl: "slot 1 (Fn 1) late_returned" by code_simp
  have t: "tasks late_returned = [(?ev, Do StopPropagation Return)]" by code_simp
  then have w: "?w\<lparr>tasks := [] @ (?ev, Do StopPropagation Return) # []\<rparr> = late_returned"
    by simp
  have sp: "stopPropagation ?ev = 0" by code_simp
  have f: "flags late_returned = [False]" by code_simp
  then have a: "0 < length (flags ?w)" by simp
  have facts: "map inv_handle (scheduled late late_returned) = [Fn 0, Fn 1]"
    "flags late_resumed = [True]"
    "dispatch 3 late_env ''second'' late_resumed \<noteq> None"
    "map inv_handle (scheduled late_resumed
       (the (dispatch 3 late_env ''second'' late_resumed))) = [Fn 0, Fn 1]"
    by code_simp+
  note first = late_stopPropagation_has_no_effect
    [where ?env1.0 = late_env and ?env2.0 = patient_env and n = 3 and d = "''first''"
      and w = late and env = late_env and w' = late_returned and j = 1 and h = "Fn 1"]
  note second = late_stopPropagation_has_no_effect
    [where n = 3 and d = "''second''" and w = ?w and env = late_env and ev = ?ev
      and ts = "[]" and ts' = "[]" and a = 0]
  from first s have 1: "map_option invocations (dispatch 3 late_env ''first'' late) =
     map_option invocations (dispatch 3 patient_env ''first'' late)" by blast
  from first r sl calm
  have "\<exists>x \<in> set (scheduled late late_returned). inv_pos x = 1 \<and> inv_handle x = Fn 1"
    by blast
  then have 4: "(1, Fn 1) \<in> (\<lambda>x. (inv_pos x, inv_handle x)) ` set (scheduled late late_returned)"
    by force
  from second w sp have 2: "late_resumed =
      late_returned\<lparr>tasks := [], flags := (flags late_returned)[0 := True]\<rparr>"
    by (simp add: late_resumed_def)
  from second a have "map_option invocations
      (dispatch 3 late_env ''second'' (?w\<lparr>flags := (flags ?w)[0 := True]\<rparr>)) =
    map_option invocations (dispatch 3 late_env ''second'' ?w)" by blast
  with 2 have 3: "map_option invocations (dispatch 3 late_env ''second'' late_resumed) =
     map_option invocations (dispatch 3 late_env ''second'' ?w)" by simp
  from s r 1 h sl 4 f t 2 3 facts show ?thesis by blast
qed

text \<open>
  C6 as stated fails: the first callback suspends before it calls \<^verbatim>\<open>stopPropagation\<close>,
  the second calls it at once, and the third, which stands behind the first in the
  iteration order, is not called.
\<close>

theorem stopPropagation_behind_a_suspended_handle:
  "members (callbacks overtaken) = [Fn 0, Fn 1, Fn 2] \<and>
   overtaken_env 0 (event_of 1 overtaken) = Await (Do StopPropagation Return) \<and>
   \<not> stops_handle overtaken_env (event_of 1 overtaken) (Fn 0) \<and>
   dispatch 4 overtaken_env 1 overtaken \<noteq> None \<and>
   map inv_handle (scheduled overtaken (the (dispatch 4 overtaken_env 1 overtaken))) =
     [Fn 0, Fn 1] \<and>
   members (callbacks (the (dispatch 4 overtaken_env 1 overtaken))) = [Fn 0, Fn 1, Fn 2] \<and>
   console (the (dispatch 4 overtaken_env 1 overtaken)) = []"
  by code_simp


subsection \<open>A callback that keeps its place\<close>


















subsection \<open>The promise of \<^verbatim>\<open>next\<close> is settled when its callback is called\<close>





end
